theory Spec2Isabelle
  imports Main "HOL-Library.Sublist"
begin

section \<open>Data model of \<^verbatim>\<open>sample_without_cat90.py\<close>\<close>

text \<open>
  The script reads a COCO annotation file with \<^verbatim>\<open>json.load\<close> and works on the Python
  objects that call returns. Only the fields \<^verbatim>\<open>id\<close>, \<^verbatim>\<open>file_name\<close>, \<^verbatim>\<open>image_id\<close> and
  \<^verbatim>\<open>category_id\<close> are interpreted; every other field is carried along as the object it is.

  \<open>pyval\<close> is such an object: \<^verbatim>\<open>None\<close>, a \<^verbatim>\<open>bool\<close>, an \<^verbatim>\<open>int\<close>, a \<^verbatim>\<open>float\<close>, a \<^verbatim>\<open>str\<close>, a
  \<^verbatim>\<open>list\<close> or a \<^verbatim>\<open>dict\<close> with string keys in insertion order. The script never computes
  with a float, so a float is identified by the text \<^verbatim>\<open>json.dump\<close> writes for it (its
  \<^verbatim>\<open>repr\<close>, or \<^verbatim>\<open>NaN\<close>, \<^verbatim>\<open>Infinity\<close>, \<^verbatim>\<open>-Infinity\<close>).
\<close>

datatype pyval =
    PyNone
  | PyBool bool
  | PyInt int
  | PyFloat string
  | PyStr string
  | PyList "pyval list"
  | PyDict "(string \<times> pyval) list"

text \<open>\<^verbatim>\<open>img['id']\<close> is the field \<open>img_id\<close> (the name \<open>id\<close> is the identity function of HOL).\<close>

record image =
  img_id :: int
  file_name :: string
  img_rest :: "(string \<times> pyval) list"

record annotation =
  image_id :: int
  category_id :: int
  ann_rest :: "(string \<times> pyval) list"

text \<open>
  The keys \<^verbatim>\<open>info\<close> and \<^verbatim>\<open>licenses\<close> are optional in the input (\<^verbatim>\<open>data.get\<close>), so they are
  options; the emitted dataset always has both.
\<close>

record dataset =
  images :: "image list"
  annotations :: "annotation list"
  categories :: "pyval list"
  info :: "pyval option"
  licenses :: "pyval option"

text \<open>
  The exceptions that end a run: \<^verbatim>\<open>ValueError\<close> from \<^verbatim>\<open>random.sample\<close>, an \<^verbatim>\<open>OSError\<close> from
  \<^verbatim>\<open>shutil.copy2\<close> (of which \<^verbatim>\<open>FileNotFoundError\<close> and \<^verbatim>\<open>IsADirectoryError\<close> are told apart),
  and \<^verbatim>\<open>ZeroDivisionError\<close> from line 173.
\<close>

datatype os_error = FileNotFoundError | IsADirectoryError | OtherOSError

datatype error = ValueError | ZeroDivisionError | OSError os_error

text \<open>
  The report \<^verbatim>\<open>category_info.txt\<close>: the number in its heading, one line per top category
  (rank, category id, annotations, images), and the three totals.
\<close>

record report =
  rep_top_n :: int
  rep_lines :: "(nat \<times> int \<times> nat \<times> nat) list"
  rep_total_images :: nat
  rep_total_annotations :: nat
  rep_cat_90_removed :: nat

text \<open>
  What the procedure reads and writes outside its arguments:
  \<^item> \<open>rng\<close>, the state of the global generator of module \<^verbatim>\<open>random\<close>;
  \<^item> \<open>src_files\<close>, the file names \<open>f\<close> for which \<^verbatim>\<open>(Path(input_images_dir) / f).exists()\<close>;
  \<^item> \<open>copy2_error\<close>, what \<^verbatim>\<open>shutil.copy2(src, dst)\<close> does for such a name in this file
    system: \<open>None\<close> when it copies, or the exception it raises (\<^verbatim>\<open>IsADirectoryError\<close>
    when the source is a directory, \<^verbatim>\<open>FileNotFoundError\<close> when the name has a directory
    part that does not exist under \<^verbatim>\<open>output_dir/images\<close>, which the script never creates);
  \<^item> \<open>out_json\<close>, the object written to \<^verbatim>\<open>annotations.json\<close>;
  \<^item> \<open>out_images\<close>, the names of the files in \<^verbatim>\<open>output_dir/images\<close>;
  \<^item> \<open>out_summary\<close>, the counters printed under \<^verbatim>\<open>=== Summary ===\<close> (copied, missing);
  \<^item> \<open>out_report\<close>, the file \<^verbatim>\<open>category_info.txt\<close>.

  Creating the output directories and writing the two text files are taken to succeed.
\<close>

record 'g world =
  rng :: 'g
  src_files :: "string set"
  copy2_error :: "string \<Rightarrow> os_error option"
  out_json :: "dataset option"
  out_images :: "string set"
  out_summary :: "(nat \<times> nat) option"
  out_report :: "report option"

section \<open>The standard library\<close>

subsection \<open>\<^verbatim>\<open>random\<close>\<close>

text \<open>
  Module \<^verbatim>\<open>random\<close> is not part of the script. It is a parameter: \<open>seed_state\<close> is the
  generator state that \<^verbatim>\<open>random.seed(seed)\<close> installs, and \<open>positions g n k\<close> gives the
  positions that \<^verbatim>\<open>random.sample\<close> selects from a population of \<open>n\<close> elements when asked
  for \<open>k\<close> of them in state \<open>g\<close>, with the state afterwards.
\<close>

record 'g rand_lib =
  seed_state :: "int \<Rightarrow> 'g"
  positions :: "'g \<Rightarrow> nat \<Rightarrow> nat \<Rightarrow> nat list \<times> 'g"

text \<open>
  The documented contract of \<^verbatim>\<open>random.sample\<close>: \<open>k\<close> different positions of the
  population.
\<close>

definition valid_lib :: "'g rand_lib \<Rightarrow> bool" where
  "valid_lib lib \<longleftrightarrow>
     (\<forall>g n k. k \<le> n \<longrightarrow>
        length (fst (positions lib g n k)) = k \<and>
        distinct (fst (positions lib g n k)) \<and>
        (\<forall>j \<in> set (fst (positions lib g n k)). j < n))"

definition random_seed :: "'g rand_lib \<Rightarrow> int \<Rightarrow> 'g world \<Rightarrow> 'g world" where
  "random_seed lib seed w = w\<lparr>rng := seed_state lib seed\<rparr>"

text \<open>
  \<^verbatim>\<open>random.sample(population, k)\<close> raises \<^verbatim>\<open>ValueError\<close> unless \<^verbatim>\<open>0 <= k <= len(population)\<close>.
\<close>

definition random_sample ::
  "'g rand_lib \<Rightarrow> 'a list \<Rightarrow> int \<Rightarrow> 'g world \<Rightarrow> 'g world \<times> (error + 'a list)" where
  "random_sample lib population k w =
     (if \<not> (0 \<le> k \<and> k \<le> int (length population)) then (w, Inl ValueError)
      else case positions lib (rng w) (length population) (nat k) of
             (js, g') \<Rightarrow> (w\<lparr>rng := g'\<rparr>, Inr (map (\<lambda>j. population ! j) js)))"

subsection \<open>\<^verbatim>\<open>json\<close>\<close>

text \<open>
  \<open>jtext\<close> is a JSON text as the decoder sees it: the tree of its tokens, with a number
  as the characters of its token, a string as the characters it denotes, and the white
  space between tokens left out. Two texts with the same bytes have the same tree.
\<close>

datatype jtext =
    JNull
  | JTrue
  | JFalse
  | JNumber string
  | JString string
  | JArray "jtext list"
  | JObject "(string \<times> jtext) list"

text \<open>
  The decoder makes an \<^verbatim>\<open>int\<close> of a number token with neither fraction nor exponent
  (an optional minus sign and digits), and a \<^verbatim>\<open>float\<close> of any other.
\<close>

definition is_digit :: "char \<Rightarrow> bool" where
  "is_digit c \<longleftrightarrow> c \<in> set ''0123456789''"

definition is_int_token :: "string \<Rightarrow> bool" where
  "is_int_token tok =
     (case tok of
        [] \<Rightarrow> False
      | c # cs \<Rightarrow> if c = CHR ''-'' then cs \<noteq> [] \<and> list_all is_digit cs
                 else list_all is_digit tok)"

definition digit_val :: "char \<Rightarrow> nat" where
  "digit_val c = of_char c - 48"

definition nat_of_digits :: "string \<Rightarrow> nat" where
  "nat_of_digits cs = foldl (\<lambda>n c. 10 * n + digit_val c) 0 cs"

text \<open>\<^verbatim>\<open>int(tok)\<close> for an integer token.\<close>

definition int_of_token :: "string \<Rightarrow> int" where
  "int_of_token tok =
     (case tok of
        [] \<Rightarrow> 0
      | c # cs \<Rightarrow> if c = CHR ''-'' then - int (nat_of_digits cs)
                 else int (nat_of_digits tok))"

fun digits_of_nat :: "nat \<Rightarrow> string" where
  "digits_of_nat n =
     (if n < 10 then [''0123456789'' ! n]
      else digits_of_nat (n div 10) @ [''0123456789'' ! (n mod 10)])"

declare digits_of_nat.simps [simp del]

text \<open>\<^verbatim>\<open>int.__repr__\<close>, which the encoder writes for an \<^verbatim>\<open>int\<close>.\<close>

definition token_of_int :: "int \<Rightarrow> string" where
  "token_of_int i =
     (if i < 0 then CHR ''-'' # digits_of_nat (nat (- i)) else digits_of_nat (nat i))"

text \<open>
  The decoder builds a \<^verbatim>\<open>dict\<close> from the pairs of an object in their order: a key that
  occurs again keeps its place and takes the later value.
\<close>

fun dict_set :: "string \<Rightarrow> 'v \<Rightarrow> (string \<times> 'v) list \<Rightarrow> (string \<times> 'v) list" where
  "dict_set k v [] = [(k, v)]"
| "dict_set k v ((k', v') # m) =
     (if k = k' then (k', v) # m else (k', v') # dict_set k v m)"

definition dict_of_pairs :: "(string \<times> 'v) list \<Rightarrow> (string \<times> 'v) list" where
  "dict_of_pairs ps = foldl (\<lambda>m (k, v). dict_set k v m) [] ps"

text \<open>
  \<^verbatim>\<open>json.load\<close> on a value of the text. Floating point is not modelled: \<open>float_text tok\<close>
  stands for the text the encoder writes for \<^verbatim>\<open>float(tok)\<close>, and is a parameter.
\<close>

fun json_load :: "(string \<Rightarrow> string) \<Rightarrow> jtext \<Rightarrow> pyval" where
  "json_load float_text JNull = PyNone"
| "json_load float_text JTrue = PyBool True"
| "json_load float_text JFalse = PyBool False"
| "json_load float_text (JNumber tok) =
     (if is_int_token tok then PyInt (int_of_token tok) else PyFloat (float_text tok))"
| "json_load float_text (JString s) = PyStr s"
| "json_load float_text (JArray xs) = PyList (map (json_load float_text) xs)"
| "json_load float_text (JObject ps) =
     PyDict (dict_of_pairs (map (\<lambda>(k, x). (k, json_load float_text x)) ps))"

text \<open>\<^verbatim>\<open>json.dump\<close> on an object, as the tree of the text it writes.\<close>

fun json_dump :: "pyval \<Rightarrow> jtext" where
  "json_dump PyNone = JNull"
| "json_dump (PyBool b) = (if b then JTrue else JFalse)"
| "json_dump (PyInt i) = JNumber (token_of_int i)"
| "json_dump (PyFloat s) = JNumber s"
| "json_dump (PyStr s) = JString s"
| "json_dump (PyList xs) = JArray (map json_dump xs)"
| "json_dump (PyDict ps) = JObject (map (\<lambda>(k, x). (k, json_dump x)) ps)"

subsection \<open>\<^verbatim>\<open>collections.Counter\<close>\<close>

text \<open>
  A \<^verbatim>\<open>Counter\<close> is a dictionary, which keeps its keys in the order of their first
  insertion: an association list. \<^verbatim>\<open>most_common(n)\<close> is \<^verbatim>\<open>heapq.nlargest\<close> on the items by
  count, which is documented to equal \<^verbatim>\<open>sorted(items, key=count, reverse=True)[:n]\<close>: a
  stable sort, and nothing for \<^verbatim>\<open>n <= 0\<close>.
\<close>

fun counter_add :: "int \<Rightarrow> (int \<times> nat) list \<Rightarrow> (int \<times> nat) list" where
  "counter_add k [] = [(k, 1)]"
| "counter_add k ((k', c) # m) =
     (if k = k' then (k', Suc c) # m else (k', c) # counter_add k m)"

definition Counter :: "int list \<Rightarrow> (int \<times> nat) list" where
  "Counter xs = foldl (\<lambda>m k. counter_add k m) [] xs"

definition counter_get :: "(int \<times> nat) list \<Rightarrow> int \<Rightarrow> nat" where
  "counter_get m k = (case map_of m k of None \<Rightarrow> 0 | Some c \<Rightarrow> c)"

definition most_common :: "int \<Rightarrow> (int \<times> nat) list \<Rightarrow> (int \<times> nat) list" where
  "most_common n m = take (nat n) (sort_key (\<lambda>(k, c). - int c) m)"

section \<open>\<^verbatim>\<open>create_focused_sample_no_cat90\<close>\<close>

subsection \<open>Lines 46 to 56: the ranking\<close>

definition category_counts :: "dataset \<Rightarrow> (int \<times> nat) list" where
  "category_counts data =
     Counter (map category_id (filter (\<lambda>ann. category_id ann \<noteq> 90) (annotations data)))"

definition top_categories :: "dataset \<Rightarrow> int \<Rightarrow> int list" where
  "top_categories data top_n_categories =
     map fst (most_common top_n_categories (category_counts data))"

subsection \<open>Lines 64 to 81: grouping\<close>

text \<open>
  \<open>image_categories\<close> is a \<^verbatim>\<open>defaultdict(set)\<close>: a key is present once the loop of line 65
  has added to its set; reading a key gives the empty set when it is absent.
\<close>

definition dd_get :: "(int \<rightharpoonup> int set) \<Rightarrow> int \<Rightarrow> int set" where
  "dd_get m k = (case m k of None \<Rightarrow> {} | Some s \<Rightarrow> s)"

definition image_categories_step ::
  "int list \<Rightarrow> (int \<rightharpoonup> int set) \<Rightarrow> annotation \<Rightarrow> (int \<rightharpoonup> int set)" where
  "image_categories_step tops m ann =
     (if category_id ann \<in> set tops
      then m(image_id ann \<mapsto> insert (category_id ann) (dd_get m (image_id ann)))
      else m)"

definition image_categories :: "int list \<Rightarrow> dataset \<Rightarrow> (int \<rightharpoonup> int set)" where
  "image_categories tops data =
     foldl (image_categories_step tops) Map.empty (annotations data)"

definition eligible_images :: "dataset \<Rightarrow> (int \<rightharpoonup> int set) \<Rightarrow> image list" where
  "eligible_images data ic =
     filter (\<lambda>img. case ic (img_id img) of None \<Rightarrow> False | Some s \<Rightarrow> 0 < card s)
       (images data)"

text \<open>
  \<open>category_image_map\<close> is a \<^verbatim>\<open>defaultdict(list)\<close> that is only read by key: a function
  that gives \<open>[]\<close> where nothing was appended. The inner loop of line 80 appends the image
  to the list of every category of the image's set, each once, so the order in which the
  set is iterated does not matter.
\<close>

definition category_image_map_step ::
  "(int \<rightharpoonup> int set) \<Rightarrow> (int \<Rightarrow> image list) \<Rightarrow> image \<Rightarrow> (int \<Rightarrow> image list)" where
  "category_image_map_step ic m img =
     (\<lambda>cat_id. if cat_id \<in> dd_get ic (img_id img) then m cat_id @ [img] else m cat_id)"

definition category_image_map ::
  "image list \<Rightarrow> (int \<rightharpoonup> int set) \<Rightarrow> (int \<Rightarrow> image list)" where
  "category_image_map elig ic = foldl (category_image_map_step ic) (\<lambda>cat_id. []) elig"

subsection \<open>Lines 84 to 90: sampling\<close>

text \<open>Lines 86 to 88, the draw for one category.\<close>

definition draw ::
  "'g rand_lib \<Rightarrow> (int \<Rightarrow> image list) \<Rightarrow> int \<Rightarrow> int \<Rightarrow> 'g world
     \<Rightarrow> 'g world \<times> (error + image list)" where
  "draw lib cim images_per_category cat_id w =
     (let available_images = cim cat_id;
          sample_size = min images_per_category (int (length available_images))
      in random_sample lib available_images sample_size w)"

fun sample_loop ::
  "'g rand_lib \<Rightarrow> (int \<Rightarrow> image list) \<Rightarrow> int \<Rightarrow> int list \<Rightarrow> int set \<Rightarrow> 'g world
     \<Rightarrow> 'g world \<times> (error + int set)" where
  "sample_loop lib cim images_per_category [] sampled_image_ids w =
     (w, Inr sampled_image_ids)"
| "sample_loop lib cim images_per_category (cat_id # cats) sampled_image_ids w =
     (case draw lib cim images_per_category cat_id w of
        (w', Inl e) \<Rightarrow> (w', Inl e)
      | (w', Inr sampled) \<Rightarrow>
          sample_loop lib cim images_per_category cats
            (foldl (\<lambda>ids img. insert (img_id img) ids) sampled_image_ids sampled) w')"

text \<open>Lines 31 to 90: everything up to the set of selected image ids.\<close>

definition sampling ::
  "'g rand_lib \<Rightarrow> dataset \<Rightarrow> int \<Rightarrow> int \<Rightarrow> int \<Rightarrow> 'g world
     \<Rightarrow> 'g world \<times> (error + int set)" where
  "sampling lib data top_n_categories images_per_category seed w =
     (let w1 = random_seed lib seed w;
          tops = top_categories data top_n_categories;
          ic = image_categories tops data;
          elig = eligible_images data ic;
          cim = category_image_map elig ic
      in sample_loop lib cim images_per_category tops {} w1)"

subsection \<open>Lines 92 to 135: the reduced dataset\<close>

definition sampled_images :: "dataset \<Rightarrow> int set \<Rightarrow> image list" where
  "sampled_images data sampled_image_ids =
     filter (\<lambda>img. img_id img \<in> sampled_image_ids) (images data)"

definition sampled_annotations :: "dataset \<Rightarrow> int set \<Rightarrow> annotation list" where
  "sampled_annotations data sampled_image_ids =
     filter (\<lambda>ann. image_id ann \<in> sampled_image_ids \<and> category_id ann \<noteq> 90)
       (annotations data)"

definition cat_90_in_sample :: "dataset \<Rightarrow> int set \<Rightarrow> nat" where
  "cat_90_in_sample data sampled_image_ids =
     length (filter (\<lambda>ann. image_id ann \<in> sampled_image_ids \<and> category_id ann = 90)
       (annotations data))"

definition sampled_data :: "dataset \<Rightarrow> int set \<Rightarrow> dataset" where
  "sampled_data data sampled_image_ids =
     \<lparr>images = sampled_images data sampled_image_ids,
      annotations = sampled_annotations data sampled_image_ids,
      categories = categories data,
      info = Some (case info data of None \<Rightarrow> PyDict [] | Some v \<Rightarrow> v),
      licenses = Some (case licenses data of None \<Rightarrow> PyList [] | Some v \<Rightarrow> v)\<rparr>"

subsection \<open>Lines 153 to 166: copying\<close>

text \<open>
  An exception of \<^verbatim>\<open>shutil.copy2\<close> at line 161 is not caught: it ends the loop and the
  run, with what was copied so far. A file that does not exist is counted and skipped.
\<close>

fun copy_loop ::
  "image list \<Rightarrow> nat \<Rightarrow> nat \<Rightarrow> 'g world \<Rightarrow> 'g world \<times> (error + nat \<times> nat)" where
  "copy_loop [] copied missing w = (w, Inr (copied, missing))"
| "copy_loop (img # imgs) copied missing w =
     (if file_name img \<in> src_files w
      then (case copy2_error w (file_name img) of
              Some e \<Rightarrow> (w, Inl (OSError e))
            | None \<Rightarrow>
                copy_loop imgs (copied + 1) missing
                  (w\<lparr>out_images := insert (file_name img) (out_images w)\<rparr>))
      else copy_loop imgs copied (missing + 1) w)"

subsection \<open>Lines 178 to 191: the report\<close>

definition category_info ::
  "dataset \<Rightarrow> int \<Rightarrow> int list \<Rightarrow> (int \<rightharpoonup> int set) \<Rightarrow> int set \<Rightarrow> report" where
  "category_info data top_n_categories tops ic sampled_image_ids =
     (let sampled_category_counts =
            Counter (map category_id (sampled_annotations data sampled_image_ids))
      in \<lparr>rep_top_n = top_n_categories,
          rep_lines =
            map (\<lambda>(i, cat_id).
                   (Suc i, cat_id, counter_get sampled_category_counts cat_id,
                    length (filter (\<lambda>img. cat_id \<in> dd_get ic (img_id img))
                      (sampled_images data sampled_image_ids))))
              (enumerate 0 tops),
          rep_total_images = length (sampled_images data sampled_image_ids),
          rep_total_annotations = length (sampled_annotations data sampled_image_ids),
          rep_cat_90_removed = cat_90_in_sample data sampled_image_ids\<rparr>)"

subsection \<open>Lines 92 to 196: emitting\<close>

text \<open>
  The JSON file is written first, then the images are copied and, when the loop has
  ended, the counters printed. Line 173 divides by \<^verbatim>\<open>len(sampled_images)\<close>, which raises
  \<^verbatim>\<open>ZeroDivisionError\<close> for an empty list; the report is written after that line.
\<close>

definition emit ::
  "dataset \<Rightarrow> int \<Rightarrow> int list \<Rightarrow> int set \<Rightarrow> 'g world
     \<Rightarrow> 'g world \<times> (error + dataset \<times> int list)" where
  "emit data top_n_categories tops sampled_image_ids w =
     (let w2 = w\<lparr>out_json := Some (sampled_data data sampled_image_ids)\<rparr>
      in case copy_loop (sampled_images data sampled_image_ids) 0 0 w2 of
           (w3, Inl e) \<Rightarrow> (w3, Inl e)
         | (w3, Inr (copied, missing)) \<Rightarrow>
             (let w4 = w3\<lparr>out_summary := Some (copied, missing)\<rparr>
              in if length (sampled_images data sampled_image_ids) = 0
                 then (w4, Inl ZeroDivisionError)
                 else (w4\<lparr>out_report :=
                            Some (category_info data top_n_categories tops
                                    (image_categories tops data) sampled_image_ids)\<rparr>,
                       Inr (sampled_data data sampled_image_ids, tops))))"

definition create_focused_sample_no_cat90 ::
  "'g rand_lib \<Rightarrow> dataset \<Rightarrow> int \<Rightarrow> int \<Rightarrow> int \<Rightarrow> 'g world
     \<Rightarrow> 'g world \<times> (error + dataset \<times> int list)" where
  "create_focused_sample_no_cat90 lib data top_n_categories images_per_category seed w =
     (case sampling lib data top_n_categories images_per_category seed w of
        (w1, Inl e) \<Rightarrow> (w1, Inl e)
      | (w1, Inr sampled_image_ids) \<Rightarrow>
          emit data top_n_categories (top_categories data top_n_categories)
            sampled_image_ids w1)"

section \<open>Notions of the specification\<close>

text \<open>
  The specification speaks of the annotation count of a category, of an image that
  contains a category, and of the images that contain it. These follow its words; the
  theorems below relate them to what the procedure computes.
\<close>

definition annotation_count :: "dataset \<Rightarrow> int \<Rightarrow> nat" where
  "annotation_count data c =
     length (filter (\<lambda>ann. category_id ann = c) (annotations data))"

definition has_category :: "dataset \<Rightarrow> int \<Rightarrow> image \<Rightarrow> bool" where
  "has_category data cat_id img \<longleftrightarrow>
     (\<exists>ann \<in> set (annotations data). image_id ann = img_id img \<and> category_id ann = cat_id)"

definition images_containing :: "dataset \<Rightarrow> int \<Rightarrow> image list" where
  "images_containing data cat_id = filter (has_category data cat_id) (images data)"

text \<open>
  The text of the \<^verbatim>\<open>categories\<close> list in \<^verbatim>\<open>annotations.json\<close>, once the file is written.
\<close>

definition written_categories :: "'g world \<Rightarrow> jtext list option" where
  "written_categories w =
     (case out_json w of None \<Rightarrow> None | Some d \<Rightarrow> Some (map json_dump (categories d)))"

text \<open>Every file of the list that exists in the source directory can be copied.\<close>

definition copies_succeed :: "'g world \<Rightarrow> image list \<Rightarrow> bool" where
  "copies_succeed w imgs \<longleftrightarrow>
     (\<forall>img \<in> set imgs. file_name img \<in> src_files w \<longrightarrow> copy2_error w (file_name img) = None)"

section \<open>A generator and a dataset for concrete runs\<close>

text \<open>
  A small generator that meets the contract of \<^verbatim>\<open>random.sample\<close>: its state is a number,
  and it selects \<open>k\<close> consecutive positions, starting at the state, around the population.
\<close>

definition demo_lib :: "nat rand_lib" where
  "demo_lib =
     \<lparr>seed_state = (\<lambda>seed. nat \<bar>seed\<bar>),
      positions = (\<lambda>g n k. (map (\<lambda>i. (g + i) mod n) [0..<k], g + k))\<rparr>"

definition mk_image :: "int \<Rightarrow> string \<Rightarrow> image" where
  "mk_image i f = \<lparr>img_id = i, file_name = f, img_rest = []\<rparr>"

definition mk_ann :: "int \<Rightarrow> int \<Rightarrow> annotation" where
  "mk_ann i c = \<lparr>image_id = i, category_id = c, ann_rest = []\<rparr>"

text \<open>
  Five images; categories 1 and 2 have three annotations each, category 3 has one, and
  category 90 has two. Image 2 carries category 90 only, image 5 carries category 3 only,
  and image 3 carries category 90 beside categories 1 and 2.
\<close>

definition demo_data :: dataset where
  "demo_data =
     \<lparr>images = [mk_image 1 ''a.jpg'', mk_image 2 ''b.jpg'', mk_image 3 ''c.jpg'',
                mk_image 4 ''d.jpg'', mk_image 5 ''e.jpg''],
      annotations = [mk_ann 1 1, mk_ann 2 90, mk_ann 3 1, mk_ann 3 2, mk_ann 4 2,
                     mk_ann 3 90, mk_ann 4 1, mk_ann 5 3, mk_ann 1 2],
      categories = [PyDict [(''id'', PyInt 1)], PyDict [(''id'', PyInt 2)],
                    PyDict [(''id'', PyInt 3)], PyDict [(''id'', PyInt 90)]],
      info = None,
      licenses = Some (PyList [PyStr ''cc''])\<rparr>"

text \<open>
  A world in which the file of image 3 is absent from the source directory and every
  file that exists can be copied.
\<close>

definition demo_world :: "nat world" where
  "demo_world =
     \<lparr>rng = 7, src_files = {''a.jpg'', ''b.jpg'', ''d.jpg'', ''e.jpg''},
      copy2_error = (\<lambda>f. None), out_json = None,
      out_images = {}, out_summary = None, out_report = None\<rparr>"

text \<open>
  An input file whose only category is written \<^verbatim>\<open>{"id": -0}\<close>, and the demonstration
  dataset with the category list that \<^verbatim>\<open>json.load\<close> makes of it. No float occurs in it, so
  any function serves as the parameter for floats.
\<close>

definition file_categories :: "jtext list" where
  "file_categories = [JObject [(''id'', JNumber ''-0'')]]"

definition demo_float_text :: "string \<Rightarrow> string" where
  "demo_float_text tok = tok"

definition file_data :: dataset where
  "file_data = demo_data\<lparr>categories := map (json_load demo_float_text) file_categories\<rparr>"

text \<open>
  The scenario of the specification: image A (id 1) with category 1, image B (id 2) with
  category 90 only, image C (id 3) with categories 1 and 2; image A also carries an
  annotation of category 90.
\<close>

definition scenario_data :: dataset where
  "scenario_data =
     \<lparr>images = [mk_image 1 ''A.jpg'', mk_image 2 ''B.jpg'', mk_image 3 ''C.jpg''],
      annotations = [mk_ann 1 1, mk_ann 2 90, mk_ann 3 1, mk_ann 3 2, mk_ann 1 90],
      categories = [PyDict [(''id'', PyInt 1)], PyDict [(''id'', PyInt 2)],
                    PyDict [(''id'', PyInt 90)]],
      info = Some (PyDict [(''year'', PyInt 2020)]),
      licenses = None\<rparr>"

section \<open>The counter and the ranking\<close>

lemma counter_add_keys:
  "map fst (counter_add k m) = (if k \<in> fst ` set m then map fst m else map fst m @ [k])"
  by (induction k m rule: counter_add.induct) auto

lemma counter_add_get:
  "counter_get (counter_add k m) k' =
     (if k' = k then Suc (counter_get m k') else counter_get m k')"
  by (induction k m rule: counter_add.induct) (auto simp: counter_get_def)

lemma counter_add_distinct:
  "distinct (map fst m) \<Longrightarrow> distinct (map fst (counter_add k m))"
  by (simp add: counter_add_keys)

lemma counter_fold_keys:
  "fst ` set (foldl (\<lambda>m k. counter_add k m) m xs) = fst ` set m \<union> set xs"
proof (induction xs arbitrary: m)
  case Nil
  show ?case by simp
next
  case (Cons x xs)
  have "fst ` set (counter_add x m) = insert x (fst ` set m)"
    using counter_add_keys [of x m] by (metis (no_types, lifting) insert_absorb list.set_map set_append list.simps(15) Un_insert_right sup_bot_right empty_set)
  with Cons show ?case by auto
qed

lemma counter_fold_distinct:
  "distinct (map fst m) \<Longrightarrow> distinct (map fst (foldl (\<lambda>m k. counter_add k m) m xs))"
  by (induction xs arbitrary: m) (simp_all add: counter_add_distinct)

lemma counter_fold_get:
  "counter_get (foldl (\<lambda>m k. counter_add k m) m xs) k = counter_get m k + count_list xs k"
  by (induction xs arbitrary: m) (simp_all add: counter_add_get)

lemma Counter_keys: "fst ` set (Counter xs) = set xs"
  by (simp add: Counter_def counter_fold_keys)

lemma Counter_distinct: "distinct (map fst (Counter xs))"
  by (simp add: Counter_def counter_fold_distinct)

lemma counter_get_Nil: "counter_get [] k = 0"
  by (simp add: counter_get_def)

lemma Counter_get: "counter_get (Counter xs) k = count_list xs k"
  by (simp add: Counter_def counter_fold_get counter_get_Nil)

lemma Counter_entry: "(k, c) \<in> set (Counter xs) \<Longrightarrow> c = count_list xs k"
  using Counter_get [of xs k] Counter_distinct [of xs]
  by (simp add: counter_get_def)

lemma count_list_non90:
  "count_list (map category_id (filter (\<lambda>ann. category_id ann \<noteq> 90) anns)) c =
     (if c = 90 then 0 else length (filter (\<lambda>ann. category_id ann = c) anns))"
  by (induction anns) auto

lemma category_counts_get:
  "counter_get (category_counts data) c = (if c = 90 then 0 else annotation_count data c)"
  by (simp add: category_counts_def Counter_get count_list_non90 annotation_count_def)

lemma category_counts_keys:
  "fst ` set (category_counts data) = category_id ` set (annotations data) - {90}"
  by (auto simp: category_counts_def Counter_keys)

lemma category_counts_entry:
  "(k, c) \<in> set (category_counts data) \<Longrightarrow> k \<noteq> 90 \<and> c = annotation_count data k"
proof -
  assume e: "(k, c) \<in> set (category_counts data)"
  then have "k \<in> fst ` set (category_counts data)"
    by force
  then have k: "k \<noteq> 90"
    by (simp add: category_counts_keys)
  have "c = counter_get (category_counts data) k"
    using e Counter_distinct by (simp add: counter_get_def category_counts_def)
  with k show ?thesis
    by (simp add: category_counts_get)
qed


lemma most_common_subset: "set (most_common n m) \<subseteq> set m"
  using set_take_subset [of "nat n" "sort_key (\<lambda>(k, c). - int c) m"]
  by (simp add: most_common_def)

lemma most_common_length: "length (most_common n m) = min (nat n) (length m)"
  by (simp add: most_common_def min.commute)

lemma most_common_distinct:
  assumes "distinct (map fst m)"
  shows "distinct (map fst (most_common n m))"
proof -
  have "distinct (map fst (sort_key (\<lambda>(k, c). - int c) m))"
    using assms by (simp add: distinct_map)
  then show ?thesis
    by (simp add: most_common_def take_map [symmetric] distinct_take)
qed

lemma most_common_sorted:
  "sorted_wrt (\<lambda>x y. snd y \<le> snd x) (most_common n m)"
proof -
  let ?f = "\<lambda>(k :: int, c :: nat). - int c"
  have "sorted (map ?f (sort_key ?f m))"
    by (rule sorted_sort_key)
  then have "sorted_wrt (\<lambda>x y. ?f x \<le> ?f y) (sort_key ?f m)"
    by (simp add: sorted_map)
  then have "sorted_wrt (\<lambda>x y. snd y \<le> snd x) (sort_key ?f m)"
    by (rule sorted_wrt_mono_rel [rotated]) auto
  then show ?thesis
    by (simp add: most_common_def sorted_wrt_take)
qed

lemma most_common_top:
  assumes "x \<in> set (most_common n m)" and "y \<in> set m" and "y \<notin> set (most_common n m)"
  shows "snd y \<le> snd x"
proof -
  let ?f = "\<lambda>(k :: int, c :: nat). - int c"
  let ?s = "sort_key ?f m"
  have s: "sorted_wrt (\<lambda>x y. snd y \<le> snd x) (take (nat n) ?s @ drop (nat n) ?s)"
    using most_common_sorted [of "int (length m)" m] by (simp add: most_common_def)
  have "y \<in> set (take (nat n) ?s @ drop (nat n) ?s)"
    using assms(2) by simp
  then have "y \<in> set (drop (nat n) ?s)"
    using assms(3) unfolding most_common_def set_append by blast
  with s assms(1) show ?thesis
    unfolding most_common_def sorted_wrt_append by blast
qed

lemma top_categories_distinct: "distinct (top_categories data n)"
  by (simp add: top_categories_def most_common_distinct category_counts_def Counter_distinct)

lemma top_categories_entry:
  assumes "c \<in> set (top_categories data n)"
  shows "(c, annotation_count data c) \<in> set (most_common n (category_counts data))"
proof -
  from assms obtain k where k: "(c, k) \<in> set (most_common n (category_counts data))"
    by (auto simp: top_categories_def)
  then have "(c, k) \<in> set (category_counts data)"
    using most_common_subset by blast
  then have "k = annotation_count data c"
    by (simp add: category_counts_entry)
  with k show ?thesis by simp
qed

lemma top_categories_subset:
  "set (top_categories data n) \<subseteq> category_id ` set (annotations data) - {90}"
proof -
  have "set (top_categories data n) \<subseteq> fst ` set (category_counts data)"
    using most_common_subset [of n "category_counts data"]
    by (auto simp: top_categories_def)
  then show ?thesis
    by (simp add: category_counts_keys)
qed

lemma top_categories_length:
  "length (top_categories data n) =
     min (nat n) (card (category_id ` set (annotations data) - {90}))"
proof -
  have "length (category_counts data) = card (fst ` set (category_counts data))"
    using distinct_card [of "map fst (category_counts data)"]
    by (simp add: category_counts_def Counter_distinct)
  then show ?thesis
    by (simp add: top_categories_def most_common_length category_counts_keys)
qed

lemma top_categories_sorted:
  "sorted_wrt (\<lambda>a b. annotation_count data b \<le> annotation_count data a)
     (top_categories data n)"
proof -
  let ?mc = "most_common n (category_counts data)"
  have e: "snd x = annotation_count data (fst x)" if "x \<in> set ?mc" for x
    using that most_common_subset [of n "category_counts data"]
      category_counts_entry [of "fst x" "snd x" data] by auto
  have "sorted_wrt (\<lambda>x y. snd y \<le> snd x) ?mc"
    by (rule most_common_sorted)
  then have "sorted_wrt (\<lambda>x y. annotation_count data (fst y) \<le> annotation_count data (fst x)) ?mc"
    by (rule sorted_wrt_mono_rel [rotated]) (simp add: e)
  then show ?thesis
    by (simp add: top_categories_def sorted_wrt_map)
qed

lemma top_categories_top:
  assumes "c \<in> set (top_categories data n)" and "c' \<noteq> 90"
    and "c' \<notin> set (top_categories data n)"
  shows "annotation_count data c' \<le> annotation_count data c"
proof (cases "c' \<in> category_id ` set (annotations data)")
  case False
  then have "annotation_count data c' = 0"
    by (auto simp: annotation_count_def filter_empty_conv)
  then show ?thesis by simp
next
  case True
  with assms(2) have "c' \<in> fst ` set (category_counts data)"
    by (simp add: category_counts_keys)
  then obtain k where k: "(c', k) \<in> set (category_counts data)"
    by auto
  then have k': "k = annotation_count data c'"
    by (simp add: category_counts_entry)
  have "(c', k) \<notin> set (most_common n (category_counts data))"
    using assms(3) by (force simp: top_categories_def)
  with most_common_top [OF top_categories_entry [OF assms(1)] k]
  show ?thesis by (simp add: k')
qed

section \<open>Grouping images by category\<close>

lemma image_categories_fold:
  "dd_get (foldl (image_categories_step tops) m anns) i =
     dd_get m i \<union> {category_id ann | ann. ann \<in> set anns \<and> image_id ann = i \<and> category_id ann \<in> set tops}"
  by (induction anns arbitrary: m) (auto simp: image_categories_step_def dd_get_def)

lemma image_categories_fold_inv:
  "(\<forall>i s. m i = Some s \<longrightarrow> finite s \<and> s \<noteq> {}) \<Longrightarrow>
   foldl (image_categories_step tops) m anns i = Some s \<Longrightarrow> finite s \<and> s \<noteq> {}"
proof (induction anns arbitrary: m)
  case Nil
  then show ?case by simp
next
  case (Cons a anns)
  have "\<forall>i s. image_categories_step tops m a i = Some s \<longrightarrow> finite s \<and> s \<noteq> {}"
    using Cons.prems(1) by (auto simp: image_categories_step_def dd_get_def split: option.splits)
  from Cons.IH [OF this] Cons.prems(2) show ?case by simp
qed

lemma image_categories_get:
  "dd_get (image_categories tops data) i =
     {c \<in> set tops. \<exists>ann \<in> set (annotations data). image_id ann = i \<and> category_id ann = c}"
proof -
  have "dd_get Map.empty i = {}"
    by (simp add: dd_get_def)
  then show ?thesis
    unfolding image_categories_def image_categories_fold by auto
qed

lemma image_categories_Some:
  "image_categories tops data i = Some s \<Longrightarrow> finite s \<and> s \<noteq> {}"
  using image_categories_fold_inv [of Map.empty tops "annotations data" i s]
  by (simp add: image_categories_def)

lemma eligible_images_eq:
  "eligible_images data (image_categories tops data) =
     filter (\<lambda>img. dd_get (image_categories tops data) (img_id img) \<noteq> {}) (images data)"
  unfolding eligible_images_def
  by (rule filter_cong) (auto simp: dd_get_def card_gt_0_iff split: option.splits dest: image_categories_Some)

lemma category_image_map_fold:
  "foldl (category_image_map_step ic) m elig cat_id =
     m cat_id @ filter (\<lambda>img. cat_id \<in> dd_get ic (img_id img)) elig"
  by (induction elig arbitrary: m) (simp_all add: category_image_map_step_def)

lemma category_image_map_eq:
  "category_image_map elig ic cat_id = filter (\<lambda>img. cat_id \<in> dd_get ic (img_id img)) elig"
  by (simp add: category_image_map_def category_image_map_fold)

lemma pool_eq:
  "category_image_map (eligible_images data (image_categories tops data))
     (image_categories tops data) cat_id =
   (if cat_id \<in> set tops then images_containing data cat_id else [])"
  by (auto simp: category_image_map_eq eligible_images_eq image_categories_get
        images_containing_def has_category_def intro!: filter_cong)

section \<open>Sampling and copying\<close>

lemma rot_inj_le:
  fixes n :: nat
  assumes "x \<le> y" and "y < n" and "(g + x) mod n = (g + y) mod n"
  shows "x = y"
proof -
  have "n dvd (g + y) - (g + x)"
    using assms(1,3) mod_eq_dvd_iff_nat [of "g + x" "g + y" n] by simp
  then have "n dvd y - x" by simp
  moreover have "y - x < n" using assms(2) by simp
  ultimately have "y - x = 0"
    using nat_dvd_not_less by blast
  with assms(1) show ?thesis by simp
qed

lemma rot_inj:
  fixes n :: nat
  assumes "x < n" and "y < n" and "(g + x) mod n = (g + y) mod n"
  shows "x = y"
proof (cases "x \<le> y")
  case True
  with assms show ?thesis by (simp add: rot_inj_le)
next
  case False
  then have "y \<le> x" by simp
  with assms rot_inj_le [of y x n g] show ?thesis by simp
qed

lemma valid_demo_lib: "valid_lib demo_lib"
proof -
  have d: "distinct (map (\<lambda>i. (g + i) mod n) [0..<k])" if "k \<le> n" for g n k :: nat
  proof -
    have "inj_on (\<lambda>i. (g + i) mod n) {0..<k}"
    proof (rule inj_onI)
      fix x y assume x: "x \<in> {0..<k}" and y: "y \<in> {0..<k}"
        and e: "(g + x) mod n = (g + y) mod n"
      from x y that have "x < n" "y < n" by simp_all
      with e show "x = y" using rot_inj [of x n y g] by simp
    qed
    then show ?thesis by (simp add: distinct_map)
  qed
  show ?thesis
    unfolding valid_lib_def demo_lib_def using d by auto
qed

lemma positions_all:
  assumes "valid_lib lib"
  shows "set (fst (positions lib g n n)) = {0..<n}"
proof -
  let ?js = "fst (positions lib g n n)"
  from assms have l: "length ?js = n" and d: "distinct ?js" and b: "\<forall>j \<in> set ?js. j < n"
    unfolding valid_lib_def by blast+
  from b have s: "set ?js \<subseteq> {0..<n}" by auto
  have "card (set ?js) = card {0..<n}"
    using d l by (simp add: distinct_card)
  with s show ?thesis
    by (simp add: card_subset_eq)
qed

lemma random_sample_error:
  "random_sample lib population k w = (w', Inl e) \<Longrightarrow>
     e = ValueError \<and> w' = w \<and> \<not> (0 \<le> k \<and> k \<le> int (length population))"
  by (auto simp: random_sample_def split: if_splits prod.splits)

lemma random_sample_ok:
  assumes "valid_lib lib" and "random_sample lib population k w = (w', Inr xs)"
  shows "0 \<le> k \<and> k \<le> int (length population) \<and> int (length xs) = k \<and>
         set xs \<subseteq> set population \<and> (\<exists>g. w' = w\<lparr>rng := g\<rparr>) \<and>
         (k = int (length population) \<longrightarrow> set xs = set population)"
proof -
  from assms(2) have k: "0 \<le> k" "k \<le> int (length population)"
    by (auto simp: random_sample_def split: if_splits)
  let ?n = "length population"
  let ?js = "fst (positions lib (rng w) ?n (nat k))"
  from assms(2) k have xs: "xs = map (\<lambda>j. population ! j) ?js"
    and w': "w' = w\<lparr>rng := snd (positions lib (rng w) ?n (nat k))\<rparr>"
    by (auto simp: random_sample_def split: prod.splits)
  from k have "nat k \<le> ?n" by simp
  with assms(1) have l: "length ?js = nat k" and b: "\<forall>j \<in> set ?js. j < ?n"
    unfolding valid_lib_def by blast+
  have sub: "set xs \<subseteq> set population"
    using b by (auto simp: xs)
  have "set xs = set population" if "k = int ?n"
  proof -
    from that have "set ?js = {0..<?n}"
      using positions_all [OF assms(1), of "rng w" ?n] by simp
    then have "set xs = (\<lambda>j. population ! j) ` {0..<?n}"
      by (simp add: xs)
    then show ?thesis
      by (simp add: set_conv_nth [of population] image_def Bex_def conj_commute) 
  qed
  with k l sub w' show ?thesis
    using xs by auto
qed

lemma random_sample_total:
  "0 \<le> k \<Longrightarrow> k \<le> int (length population) \<Longrightarrow>
     \<exists>w' xs. random_sample lib population k w = (w', Inr xs)"
  by (simp add: random_sample_def split: prod.splits)


lemma foldl_insert_ids:
  "foldl (\<lambda>ids img. insert (img_id img) ids) ids sampled = ids \<union> img_id ` set sampled"
  by (induction sampled arbitrary: ids) auto

lemma draw_error:
  "draw lib cim cap cat_id w = (w', Inl e) \<Longrightarrow> e = ValueError \<and> w' = w \<and> cap < 0"
  by (auto simp: draw_def Let_def dest!: random_sample_error)

lemma draw_total:
  "0 \<le> cap \<Longrightarrow> \<exists>w' sampled. draw lib cim cap cat_id w = (w', Inr sampled)"
  by (simp add: draw_def Let_def random_sample_total)

lemma draw_ok:
  assumes "valid_lib lib" and "draw lib cim cap cat_id w = (w', Inr sampled)"
  shows "0 \<le> cap \<and> int (length sampled) = min cap (int (length (cim cat_id))) \<and>
         set sampled \<subseteq> set (cim cat_id) \<and> (\<exists>g. w' = w\<lparr>rng := g\<rparr>) \<and>
         (int (length (cim cat_id)) \<le> cap \<longrightarrow> set sampled = set (cim cat_id))"
  using random_sample_ok [OF assms(1), of "cim cat_id" "min cap (int (length (cim cat_id)))" w w' sampled]
    assms(2)
  by (auto simp: draw_def Let_def min_def split: if_splits)

lemma sample_loop_error:
  "sample_loop lib cim cap cats ids w = (w', Inl e) \<Longrightarrow> e = ValueError \<and> cap < 0"
proof (induction cats arbitrary: ids w)
  case Nil
  then show ?case by simp
next
  case (Cons c cats)
  obtain w1 r where d: "draw lib cim cap c w = (w1, r)"
    by (cases "draw lib cim cap c w")
  show ?case
  proof (cases r)
    case (Inl e')
    with d Cons.prems draw_error [of lib cim cap c w w1 e'] show ?thesis by simp
  next
    case (Inr sampled)
    with d Cons.prems Cons.IH show ?thesis by simp
  qed
qed

lemma sample_loop_total:
  "0 \<le> cap \<Longrightarrow> \<exists>w' ids'. sample_loop lib cim cap cats ids w = (w', Inr ids')"
proof -
  assume cap: "0 \<le> cap"
  obtain w' r where s: "sample_loop lib cim cap cats ids w = (w', r)"
    by (cases "sample_loop lib cim cap cats ids w")
  show ?thesis
  proof (cases r)
    case (Inl e)
    with s sample_loop_error [of lib cim cap cats ids w w' e] cap show ?thesis by simp
  next
    case (Inr ids')
    with s show ?thesis by simp
  qed
qed

lemma sample_loop_ok:
  assumes "valid_lib lib"
  shows "sample_loop lib cim cap cats ids w = (w', Inr ids') \<Longrightarrow>
     ids \<subseteq> ids' \<and> ids' \<subseteq> ids \<union> (\<Union>c \<in> set cats. img_id ` set (cim c)) \<and>
     (\<exists>g. w' = w\<lparr>rng := g\<rparr>) \<and>
     ((\<forall>c \<in> set cats. int (length (cim c)) \<le> cap) \<longrightarrow>
        ids' = ids \<union> (\<Union>c \<in> set cats. img_id ` set (cim c)))"
proof (induction cats arbitrary: ids w)
  case Nil
  then show ?case by (auto intro: exI [of _ "rng w"])
next
  case (Cons c cats)
  obtain w1 r where d: "draw lib cim cap c w = (w1, r)"
    by (cases "draw lib cim cap c w")
  show ?case
  proof (cases r)
    case (Inl e)
    with d Cons.prems show ?thesis by simp
  next
    case (Inr sampled)
    with d Cons.prems have
      l: "sample_loop lib cim cap cats (ids \<union> img_id ` set sampled) w1 = (w', Inr ids')"
      by (simp add: foldl_insert_ids)
    note ih = Cons.IH [OF l]
    note dr = draw_ok [OF assms d [unfolded Inr]]
    from dr obtain g1 where w1: "w1 = w\<lparr>rng := g1\<rparr>" by blast
    from ih obtain g where "w' = w1\<lparr>rng := g\<rparr>" by blast
    with w1 have "w' = w\<lparr>rng := g\<rparr>" by simp
    then have 1: "\<exists>g. w' = w\<lparr>rng := g\<rparr>" ..
    have sub: "img_id ` set sampled \<subseteq> img_id ` set (cim c)"
      using dr by blast
    have 2: "ids \<subseteq> ids'" using ih by blast
    have "ids' \<subseteq> ids \<union> img_id ` set sampled \<union> (\<Union>c \<in> set cats. img_id ` set (cim c))"
      using ih by blast
    with sub have 3: "ids' \<subseteq> ids \<union> (\<Union>c \<in> set (c # cats). img_id ` set (cim c))"
      by auto
    have 4: "ids' = ids \<union> (\<Union>c \<in> set (c # cats). img_id ` set (cim c))"
      if a: "\<forall>c \<in> set (c # cats). int (length (cim c)) \<le> cap"
    proof -
      from a dr have "set sampled = set (cim c)" by simp
      moreover from a ih
      have "ids' = ids \<union> img_id ` set sampled \<union> (\<Union>c \<in> set cats. img_id ` set (cim c))"
        by simp
      ultimately show ?thesis by auto
    qed
    from 1 2 3 4 show ?thesis by blast
  qed
qed


lemma random_sample_world:
  "random_sample lib population k w = (w', r) \<Longrightarrow> \<exists>g. w' = w\<lparr>rng := g\<rparr>"
  by (auto simp: random_sample_def split: if_splits prod.splits intro: exI [of _ "rng w"])

lemma sample_loop_world:
  "sample_loop lib cim cap cats ids w = (w', r) \<Longrightarrow> \<exists>g. w' = w\<lparr>rng := g\<rparr>"
proof (induction cats arbitrary: ids w)
  case Nil
  then show ?case by (auto intro: exI [of _ "rng w"])
next
  case (Cons c cats)
  obtain w1 r1 where d: "draw lib cim cap c w = (w1, r1)"
    by (cases "draw lib cim cap c w")
  then obtain g1 where w1: "w1 = w\<lparr>rng := g1\<rparr>"
    unfolding draw_def Let_def by (blast dest: random_sample_world)
  show ?case
  proof (cases r1)
    case (Inl e)
    with d Cons.prems w1 show ?thesis by auto
  next
    case (Inr sampled)
    with d Cons.prems obtain g where "w' = w1\<lparr>rng := g\<rparr>"
      using Cons.IH by fastforce
    with w1 have "w' = w\<lparr>rng := g\<rparr>" by simp
    then show ?thesis ..
  qed
qed

lemma sampling_world:
  "sampling lib data n cap seed w = (w', r) \<Longrightarrow> \<exists>g. w' = w\<lparr>rng := g\<rparr>"
  unfolding sampling_def Let_def random_seed_def
  by (drule sample_loop_world) auto

lemma sampling_error:
  "sampling lib data n cap seed w = (w', Inl e) \<Longrightarrow> e = ValueError \<and> cap < 0"
  unfolding sampling_def Let_def by (rule sample_loop_error)

lemma sampling_total:
  "0 \<le> cap \<Longrightarrow> \<exists>w' ids. sampling lib data n cap seed w = (w', Inr ids)"
  unfolding sampling_def Let_def by (rule sample_loop_total)

lemma sampling_ok:
  assumes "valid_lib lib" and "sampling lib data n cap seed w = (w', Inr ids)"
  shows "ids \<subseteq> (\<Union>c \<in> set (top_categories data n). img_id ` set (images_containing data c))"
    and "(\<forall>c \<in> set (top_categories data n). int (length (images_containing data c)) \<le> cap)
           \<Longrightarrow> ids = (\<Union>c \<in> set (top_categories data n). img_id ` set (images_containing data c))"
proof -
  let ?tops = "top_categories data n"
  let ?ic = "image_categories ?tops data"
  let ?cim = "category_image_map (eligible_images data ?ic) ?ic"
  have p: "?cim c = images_containing data c" if "c \<in> set ?tops" for c
    using that by (simp add: pool_eq)
  from assms(2) have
    "sample_loop lib ?cim cap ?tops {} (random_seed lib seed w) = (w', Inr ids)"
    by (simp add: sampling_def Let_def)
  note l = sample_loop_ok [OF assms(1) this]
  from l show "ids \<subseteq> (\<Union>c \<in> set ?tops. img_id ` set (images_containing data c))"
    by (simp add: p)
  assume "\<forall>c \<in> set ?tops. int (length (images_containing data c)) \<le> cap"
  then have "\<forall>c \<in> set ?tops. int (length (?cim c)) \<le> cap"
    by (simp add: p)
  with l show "ids = (\<Union>c \<in> set ?tops. img_id ` set (images_containing data c))"
    by (simp add: p)
qed

lemma copies_succeed_out_images:
  "copies_succeed (w\<lparr>out_images := s\<rparr>) imgs = copies_succeed w imgs"
  by (simp add: copies_succeed_def)

lemma copies_succeed_out_json:
  "copies_succeed (w\<lparr>out_json := j\<rparr>) imgs = copies_succeed w imgs"
  by (simp add: copies_succeed_def)

lemma copies_succeed_rng:
  "copies_succeed (w\<lparr>rng := g\<rparr>) imgs = copies_succeed w imgs"
  by (simp add: copies_succeed_def)

lemma copy_loop_succeed:
  "copies_succeed w imgs \<Longrightarrow>
   copy_loop imgs copied missing w =
     (w\<lparr>out_images :=
           out_images w \<union>
           set (map file_name (filter (\<lambda>img. file_name img \<in> src_files w) imgs))\<rparr>,
      Inr (copied + length (filter (\<lambda>img. file_name img \<in> src_files w) imgs),
           missing + length (filter (\<lambda>img. file_name img \<notin> src_files w) imgs)))"
proof (induction imgs arbitrary: copied missing w)
  case Nil
  show ?case by simp
next
  case (Cons img imgs)
  from Cons.prems have rest: "copies_succeed w imgs"
    by (simp add: copies_succeed_def)
  show ?case
  proof (cases "file_name img \<in> src_files w")
    case True
    with Cons.prems have "copy2_error w (file_name img) = None"
      by (simp add: copies_succeed_def)
    with True rest show ?thesis
      by (simp add: Cons.IH copies_succeed_out_images)
  next
    case False
    with rest show ?thesis by (simp add: Cons.IH)
  qed
qed

lemma copy_loop_world:
  "copy_loop imgs copied missing w = (w', r) \<Longrightarrow>
     \<exists>s. s \<subseteq> set (map file_name (filter (\<lambda>img. file_name img \<in> src_files w) imgs)) \<and>
         w' = w\<lparr>out_images := out_images w \<union> s\<rparr>"
proof (induction imgs arbitrary: copied missing w)
  case Nil
  then have "w' = w\<lparr>out_images := out_images w \<union> {}\<rparr>" by simp
  then show ?case by (intro exI [of _ "{}"]) simp
next
  case (Cons img imgs)
  show ?case
  proof (cases "file_name img \<in> src_files w")
    case False
    with Cons.prems Cons.IH [of copied "missing + 1" w] show ?thesis by simp
  next
    case True
    show ?thesis
    proof (cases "copy2_error w (file_name img)")
      case (Some e)
      with True Cons.prems have "w' = w\<lparr>out_images := out_images w \<union> {}\<rparr>" by simp
      then show ?thesis by (intro exI [of _ "{}"]) simp
    next
      case None
      let ?w = "w\<lparr>out_images := insert (file_name img) (out_images w)\<rparr>"
      from None True Cons.prems have "copy_loop imgs (copied + 1) missing ?w = (w', r)"
        by simp
      from Cons.IH [OF this] obtain s
        where s: "s \<subseteq> set (map file_name (filter (\<lambda>img. file_name img \<in> src_files w) imgs))"
          and w': "w' = ?w\<lparr>out_images := out_images ?w \<union> s\<rparr>"
        by auto
      have "w' = w\<lparr>out_images := out_images w \<union> insert (file_name img) s\<rparr>"
        using w' by simp
      moreover have "insert (file_name img) s \<subseteq>
          set (map file_name (filter (\<lambda>i. file_name i \<in> src_files w) (img # imgs)))"
        using s True by auto
      ultimately show ?thesis by blast
    qed
  qed
qed

lemma copy_loop_error:
  "copy_loop imgs copied missing w = (w', Inl e) \<Longrightarrow>
     \<exists>img \<in> set imgs. \<exists>x. file_name img \<in> src_files w \<and>
        copy2_error w (file_name img) = Some x \<and> e = OSError x"
proof (induction imgs arbitrary: copied missing w)
  case Nil
  then show ?case by simp
next
  case (Cons img imgs)
  show ?case
  proof (cases "file_name img \<in> src_files w")
    case False
    with Cons.prems Cons.IH [of copied "missing + 1" w] show ?thesis by simp
  next
    case True
    show ?thesis
    proof (cases "copy2_error w (file_name img)")
      case (Some x)
      with True Cons.prems show ?thesis by auto
    next
      case None
      with True Cons.prems
        Cons.IH [of "copied + 1" missing "w\<lparr>out_images := insert (file_name img) (out_images w)\<rparr>"]
      show ?thesis by simp
    qed
  qed
qed

lemma copy_loop_returns:
  "copy_loop imgs copied missing w = (w', Inr cm) \<Longrightarrow> copies_succeed w imgs"
proof (induction imgs arbitrary: copied missing w)
  case Nil
  show ?case by (simp add: copies_succeed_def)
next
  case (Cons img imgs)
  show ?case
  proof (cases "file_name img \<in> src_files w")
    case False
    with Cons.prems Cons.IH [of copied "missing + 1" w] show ?thesis
      by (simp add: copies_succeed_def)
  next
    case True
    show ?thesis
    proof (cases "copy2_error w (file_name img)")
      case (Some x)
      with True Cons.prems show ?thesis by simp
    next
      case None
      with True Cons.prems
        Cons.IH [of "copied + 1" missing "w\<lparr>out_images := insert (file_name img) (out_images w)\<rparr>"]
      show ?thesis by (simp add: copies_succeed_def)
    qed
  qed
qed

section \<open>The whole procedure\<close>

lemma emit_succeed:
  assumes "copies_succeed w (sampled_images data ids)"
  shows "emit data n tops ids w =
     (let w4 = w\<lparr>out_json := Some (sampled_data data ids),
                 out_images := out_images w \<union>
                   set (map file_name (filter (\<lambda>img. file_name img \<in> src_files w) (sampled_images data ids))),
                 out_summary :=
                   Some (length (filter (\<lambda>img. file_name img \<in> src_files w) (sampled_images data ids)),
                         length (filter (\<lambda>img. file_name img \<notin> src_files w) (sampled_images data ids)))\<rparr>
      in if sampled_images data ids = [] then (w4, Inl ZeroDivisionError)
         else (w4\<lparr>out_report :=
                  Some (category_info data n tops (image_categories tops data) ids)\<rparr>,
               Inr (sampled_data data ids, tops)))"
proof -
  have "copies_succeed (w\<lparr>out_json := Some (sampled_data data ids)\<rparr>) (sampled_images data ids)"
    using assms by (simp add: copies_succeed_out_json)
  from copy_loop_succeed [OF this, of 0 0] show ?thesis
    by (simp add: emit_def Let_def)
qed

lemma emit_fails:
  assumes "emit data n tops ids w = (w', Inl (OSError x))"
  shows "(\<exists>img \<in> set (sampled_images data ids). file_name img \<in> src_files w \<and>
            copy2_error w (file_name img) = Some x) \<and>
         out_json w' = Some (sampled_data data ids) \<and>
         out_summary w' = out_summary w \<and> out_report w' = out_report w \<and>
         out_images w' \<subseteq> out_images w \<union>
           set (map file_name (filter (\<lambda>img. file_name img \<in> src_files w) (sampled_images data ids)))"
proof -
  let ?w2 = "w\<lparr>out_json := Some (sampled_data data ids)\<rparr>"
  obtain w3 r3 where c: "copy_loop (sampled_images data ids) 0 0 ?w2 = (w3, r3)"
    by (cases "copy_loop (sampled_images data ids) 0 0 ?w2")
  from copy_loop_world [OF c] obtain s
    where s: "s \<subseteq> set (map file_name (filter (\<lambda>img. file_name img \<in> src_files w) (sampled_images data ids)))"
      and w3: "w3 = ?w2\<lparr>out_images := out_images ?w2 \<union> s\<rparr>"
    by auto
  show ?thesis
  proof (cases r3)
    case (Inl e)
    with c assms have e: "e = OSError x" and w': "w' = w3"
      by (simp_all add: emit_def Let_def)
    from copy_loop_error [OF c [unfolded Inl]] e
    have "\<exists>img \<in> set (sampled_images data ids). file_name img \<in> src_files w \<and>
        copy2_error w (file_name img) = Some x"
      by auto
    with s show ?thesis
      by (auto simp: w' w3)
  next
    case (Inr cm)
    with c assms show ?thesis
      by (cases cm) (simp add: emit_def Let_def split: if_splits)
  qed
qed

lemma emit_cases:
  assumes "emit data n tops ids w = (w', r)"
  shows "(\<exists>x. r = Inl (OSError x)) \<or> copies_succeed w (sampled_images data ids)"
proof -
  let ?w2 = "w\<lparr>out_json := Some (sampled_data data ids)\<rparr>"
  obtain w3 r3 where c: "copy_loop (sampled_images data ids) 0 0 ?w2 = (w3, r3)"
    by (cases "copy_loop (sampled_images data ids) 0 0 ?w2")
  show ?thesis
  proof (cases r3)
    case (Inl e)
    from copy_loop_error [OF c [unfolded Inl]] obtain x where "e = OSError x"
      by auto
    moreover from c Inl assms have "r = Inl e"
      by (simp add: emit_def Let_def)
    ultimately show ?thesis by simp
  next
    case (Inr cm)
    from copy_loop_returns [OF c [unfolded Inr]] show ?thesis
      by (simp add: copies_succeed_out_json)
  qed
qed

lemma run_eq:
  assumes "sampling lib data n cap seed w = (w1, Inr ids)"
  shows "create_focused_sample_no_cat90 lib data n cap seed w =
           emit data n (top_categories data n) ids w1"
  using assms by (simp add: create_focused_sample_no_cat90_def)

lemma run_cases:
  assumes "create_focused_sample_no_cat90 lib data n cap seed w = (w', r)"
  shows "(r = Inl ValueError \<and> cap < 0 \<and> (\<exists>g. w' = w\<lparr>rng := g\<rparr>)) \<or>
         (\<exists>w1 ids. sampling lib data n cap seed w = (w1, Inr ids) \<and>
            emit data n (top_categories data n) ids w1 = (w', r))"
proof -
  obtain w1 r1 where s: "sampling lib data n cap seed w = (w1, r1)"
    by (cases "sampling lib data n cap seed w")
  show ?thesis
  proof (cases r1)
    case (Inl e)
    with s sampling_error [of lib data n cap seed w w1 e] sampling_world [OF s] assms
    show ?thesis by (auto simp: create_focused_sample_no_cat90_def)
  next
    case (Inr ids)
    with s assms show ?thesis by (simp add: create_focused_sample_no_cat90_def)
  qed
qed

lemma emit_not_ValueError: "emit data n tops ids w \<noteq> (w', Inl ValueError)"
proof
  assume e: "emit data n tops ids w = (w', Inl ValueError)"
  from emit_cases [OF e] have "copies_succeed w (sampled_images data ids)"
    by simp
  from emit_succeed [OF this, of n tops] e show False
    by (simp add: Let_def split: if_splits)
qed

lemma run_ValueError:
  assumes "create_focused_sample_no_cat90 lib data n cap seed w = (w', Inl ValueError)"
  shows "cap < 0"
  using run_cases [OF assms] emit_not_ValueError by blast

lemma sampled_data_simps:
  "images (sampled_data data ids) = sampled_images data ids"
  "annotations (sampled_data data ids) = sampled_annotations data ids"
  "categories (sampled_data data ids) = categories data"
  by (simp_all add: sampled_data_def)

lemma run_written:
  assumes "create_focused_sample_no_cat90 lib data n cap seed w = (w', r)"
    and "r \<noteq> Inl ValueError"
  shows "\<exists>w1 ids. sampling lib data n cap seed w = (w1, Inr ids) \<and>
     emit data n (top_categories data n) ids w1 = (w', r) \<and>
     out_json w' = Some (sampled_data data ids) \<and>
     (\<forall>d' tops. r = Inr (d', tops) \<longrightarrow>
        d' = sampled_data data ids \<and> tops = top_categories data n \<and>
        sampled_images data ids \<noteq> [] \<and> out_report w' \<noteq> None) \<and>
     (r = Inl ZeroDivisionError \<longrightarrow>
        sampled_images data ids = [] \<and> out_summary w' = Some (0, 0) \<and>
        out_report w' = out_report w \<and> out_images w' = out_images w) \<and>
     (\<forall>x. r = Inl (OSError x) \<longrightarrow>
        (\<exists>img \<in> set (sampled_images data ids). file_name img \<in> src_files w \<and>
           copy2_error w (file_name img) = Some x)) \<and>
     out_images w' \<subseteq> out_images w \<union>
       set (map file_name (filter (\<lambda>img. file_name img \<in> src_files w) (sampled_images data ids))) \<and>
     (copies_succeed w (sampled_images data ids) \<longrightarrow>
        out_images w' = out_images w \<union>
          set (map file_name (filter (\<lambda>img. file_name img \<in> src_files w) (sampled_images data ids))) \<and>
        out_summary w' =
          Some (length (filter (\<lambda>img. file_name img \<in> src_files w) (sampled_images data ids)),
                length (filter (\<lambda>img. file_name img \<notin> src_files w) (sampled_images data ids))) \<and>
        (if sampled_images data ids = [] then r = Inl ZeroDivisionError
         else r = Inr (sampled_data data ids, top_categories data n)))"
proof -
  from run_cases [OF assms(1)] assms(2) obtain w1 ids
    where s: "sampling lib data n cap seed w = (w1, Inr ids)"
      and e: "emit data n (top_categories data n) ids w1 = (w', r)"
    by blast
  from sampling_world [OF s] obtain g where w1: "w1 = w\<lparr>rng := g\<rparr>" ..
  let ?si = "sampled_images data ids"
  let ?names = "set (map file_name (filter (\<lambda>img. file_name img \<in> src_files w) ?si))"
  have ok: "out_json w' = Some (sampled_data data ids) \<and>
      out_images w' = out_images w \<union> ?names \<and>
      out_summary w' =
        Some (length (filter (\<lambda>img. file_name img \<in> src_files w) ?si),
              length (filter (\<lambda>img. file_name img \<notin> src_files w) ?si)) \<and>
      (if ?si = [] then r = Inl ZeroDivisionError \<and> out_report w' = out_report w
       else r = Inr (sampled_data data ids, top_categories data n) \<and> out_report w' \<noteq> None)"
    if c: "copies_succeed w ?si"
  proof -
    from c have "copies_succeed w1 ?si"
      by (simp add: w1 copies_succeed_rng)
    from emit_succeed [OF this, of n "top_categories data n"] e show ?thesis
      by (auto simp: Let_def w1 split: if_splits)
  qed
  have bad: "(\<exists>img \<in> set ?si. file_name img \<in> src_files w \<and>
        copy2_error w (file_name img) = Some x) \<and>
      out_json w' = Some (sampled_data data ids) \<and> out_images w' \<subseteq> out_images w \<union> ?names"
    if "r = Inl (OSError x)" for x
    using emit_fails [OF e [unfolded that]] by (simp add: w1)
  from emit_cases [OF e] have cases: "(\<exists>x. r = Inl (OSError x)) \<or> copies_succeed w ?si"
    by (simp add: w1 copies_succeed_rng)
  have "out_json w' = Some (sampled_data data ids)"
    using cases ok bad by blast
  moreover have "\<forall>d' tops. r = Inr (d', tops) \<longrightarrow>
        d' = sampled_data data ids \<and> tops = top_categories data n \<and>
        ?si \<noteq> [] \<and> out_report w' \<noteq> None"
    using cases ok by (auto split: if_splits)
  moreover have "r = Inl ZeroDivisionError \<longrightarrow>
        ?si = [] \<and> out_summary w' = Some (0, 0) \<and>
        out_report w' = out_report w \<and> out_images w' = out_images w"
    using cases ok by (auto split: if_splits)
  moreover have "\<forall>x. r = Inl (OSError x) \<longrightarrow>
        (\<exists>img \<in> set ?si. file_name img \<in> src_files w \<and> copy2_error w (file_name img) = Some x)"
    using bad by blast
  moreover have "out_images w' \<subseteq> out_images w \<union> ?names"
    using cases ok bad by blast
  moreover have "copies_succeed w ?si \<longrightarrow>
        out_images w' = out_images w \<union> ?names \<and>
        out_summary w' =
          Some (length (filter (\<lambda>img. file_name img \<in> src_files w) ?si),
                length (filter (\<lambda>img. file_name img \<notin> src_files w) ?si)) \<and>
        (if ?si = [] then r = Inl ZeroDivisionError
         else r = Inr (sampled_data data ids, top_categories data n))"
    using ok by (auto split: if_splits)
  ultimately show ?thesis using s e by blast
qed

lemma run_output:
  assumes "create_focused_sample_no_cat90 lib data n cap seed w = (w', r)"
    and "r \<noteq> Inl ValueError"
  shows "\<exists>w1 ids. sampling lib data n cap seed w = (w1, Inr ids) \<and>
     out_json w' = Some (sampled_data data ids) \<and>
     (\<forall>d' tops. r = Inr (d', tops) \<longrightarrow> d' = sampled_data data ids)"
  using run_written [OF assms] by blast

lemma run_not_ValueError:
  "0 \<le> cap \<Longrightarrow> snd (create_focused_sample_no_cat90 lib data n cap seed w) \<noteq> Inl ValueError"
  using run_ValueError [of lib data n cap seed w "fst (create_focused_sample_no_cat90 lib data n cap seed w)"]
  by (cases "create_focused_sample_no_cat90 lib data n cap seed w") auto

lemma written_categories_run:
  assumes "create_focused_sample_no_cat90 lib data n cap seed w = (w', r)"
    and "r \<noteq> Inl ValueError"
  shows "written_categories w' = Some (map json_dump (categories data))"
  using run_output [OF assms] by (auto simp: written_categories_def sampled_data_simps)

lemma run_after_sampling:
  assumes "sampling lib data n cap seed w = (u, Inr ids)"
  shows "out_json (fst (create_focused_sample_no_cat90 lib data n cap seed w)) =
           Some (sampled_data data ids)"
    and "snd (create_focused_sample_no_cat90 lib data n cap seed w) = Inr (d, t) \<Longrightarrow>
           d = sampled_data data ids \<and> t = top_categories data n"
proof -
  obtain v q where o: "create_focused_sample_no_cat90 lib data n cap seed w = (v, q)"
    by (cases "create_focused_sample_no_cat90 lib data n cap seed w")
  have "emit data n (top_categories data n) ids u = (v, q)"
    using o by (simp add: run_eq [OF assms])
  then have nv: "q \<noteq> Inl ValueError"
    using emit_not_ValueError [of data n "top_categories data n" ids u v] by blast
  from run_written [OF o nv] obtain u' ids'
    where s': "sampling lib data n cap seed w = (u', Inr ids')"
      and j': "out_json v = Some (sampled_data data ids')"
      and d': "\<forall>d' tops. q = Inr (d', tops) \<longrightarrow>
        d' = sampled_data data ids' \<and> tops = top_categories data n \<and>
        sampled_images data ids' \<noteq> [] \<and> out_report v \<noteq> None"
    by blast
  from s' assms have "ids' = ids" by simp
  with j' d' have j: "out_json v = Some (sampled_data data ids)"
    and d: "\<forall>d' tops. q = Inr (d', tops) \<longrightarrow>
        d' = sampled_data data ids \<and> tops = top_categories data n"
    by simp_all
  from j show "out_json (fst (create_focused_sample_no_cat90 lib data n cap seed w)) =
      Some (sampled_data data ids)"
    by (simp add: o)
  assume "snd (create_focused_sample_no_cat90 lib data n cap seed w) = Inr (d, t)"
  then have "q = Inr (d, t)" by (simp add: o)
  with d show "d = sampled_data data ids \<and> t = top_categories data n"
    by blast
qed

lemma copy_loop_result_cong:
  "src_files w1 = src_files w2 \<Longrightarrow> copy2_error w1 = copy2_error w2 \<Longrightarrow>
     snd (copy_loop imgs copied missing w1) = snd (copy_loop imgs copied missing w2)"
proof (induction imgs arbitrary: copied missing w1 w2)
  case Nil
  show ?case by simp
next
  case (Cons img imgs)
  show ?case
  proof (cases "file_name img \<in> src_files w2")
    case False
    with Cons.prems Cons.IH [of w1 w2 copied "missing + 1"] show ?thesis by simp
  next
    case True
    show ?thesis
    proof (cases "copy2_error w2 (file_name img)")
      case (Some x)
      with True Cons.prems show ?thesis by simp
    next
      case None
      with True Cons.prems
        Cons.IH [of "w1\<lparr>out_images := insert (file_name img) (out_images w1)\<rparr>"
          "w2\<lparr>out_images := insert (file_name img) (out_images w2)\<rparr>" "copied + 1" missing]
      show ?thesis by simp
    qed
  qed
qed

lemma emit_result_cong:
  assumes "src_files w1 = src_files w2" and "copy2_error w1 = copy2_error w2"
  shows "snd (emit data n tops ids w1) = snd (emit data n tops ids w2)"
proof -
  let ?j = "Some (sampled_data data ids)"
  obtain u1 r1 where c1: "copy_loop (sampled_images data ids) 0 0 (w1\<lparr>out_json := ?j\<rparr>) = (u1, r1)"
    by (cases "copy_loop (sampled_images data ids) 0 0 (w1\<lparr>out_json := ?j\<rparr>)")
  obtain u2 r2 where c2: "copy_loop (sampled_images data ids) 0 0 (w2\<lparr>out_json := ?j\<rparr>) = (u2, r2)"
    by (cases "copy_loop (sampled_images data ids) 0 0 (w2\<lparr>out_json := ?j\<rparr>)")
  from copy_loop_result_cong [of "w1\<lparr>out_json := ?j\<rparr>" "w2\<lparr>out_json := ?j\<rparr>"
      "sampled_images data ids" 0 0] assms c1 c2
  have r: "r2 = r1" by simp
  show ?thesis
  proof (cases r1)
    case (Inl e)
    then show ?thesis by (simp add: emit_def Let_def c1 c2 r)
  next
    case (Inr cm)
    then show ?thesis by (cases cm) (simp add: emit_def Let_def c1 c2 r)
  qed
qed

lemma run_result_cong:
  assumes "src_files w1 = src_files w2" and "copy2_error w1 = copy2_error w2"
    and "snd (sampling lib data n cap seed w1) = snd (sampling lib data n cap seed w2)"
  shows "snd (create_focused_sample_no_cat90 lib data n cap seed w1) =
         snd (create_focused_sample_no_cat90 lib data n cap seed w2)"
proof -
  obtain u1 r1 where s1: "sampling lib data n cap seed w1 = (u1, r1)"
    by (cases "sampling lib data n cap seed w1")
  obtain u2 r2 where s2: "sampling lib data n cap seed w2 = (u2, r2)"
    by (cases "sampling lib data n cap seed w2")
  from assms(3) s1 s2 have r: "r2 = r1" by simp
  from sampling_world [OF s1] obtain g1 where u1: "u1 = w1\<lparr>rng := g1\<rparr>" ..
  from sampling_world [OF s2] obtain g2 where u2: "u2 = w2\<lparr>rng := g2\<rparr>" ..
  show ?thesis
  proof (cases r1)
    case (Inl e)
    then show ?thesis
      by (simp add: create_focused_sample_no_cat90_def s1 s2 r)
  next
    case (Inr ids)
    have "snd (emit data n (top_categories data n) ids u1) =
        snd (emit data n (top_categories data n) ids u2)"
      using assms(1,2) by (intro emit_result_cong) (simp_all add: u1 u2)
    then show ?thesis
      by (simp add: create_focused_sample_no_cat90_def s1 s2 r Inr)
  qed
qed


lemma images_containing_subset: "set (images_containing data c) \<subseteq> set (images data)"
  by (simp add: images_containing_def)

lemma random_sample_rng:
  assumes "rng w1 = rng w2"
  shows "snd (random_sample lib population k w1) = snd (random_sample lib population k w2) \<and>
         rng (fst (random_sample lib population k w1)) =
         rng (fst (random_sample lib population k w2))"
  using assms by (simp add: random_sample_def split: prod.splits)

lemma sample_loop_rng:
  "rng w1 = rng w2 \<Longrightarrow>
     snd (sample_loop lib cim cap cats ids w1) = snd (sample_loop lib cim cap cats ids w2)"
proof (induction cats arbitrary: ids w1 w2)
  case Nil
  show ?case by simp
next
  case (Cons c cats)
  obtain u1 r1 where d1: "draw lib cim cap c w1 = (u1, r1)"
    by (cases "draw lib cim cap c w1")
  obtain u2 r2 where d2: "draw lib cim cap c w2 = (u2, r2)"
    by (cases "draw lib cim cap c w2")
  from random_sample_rng [OF Cons.prems, of lib "cim c" "min cap (int (length (cim c)))"] d1 d2
  have r: "r2 = r1" and u: "rng u1 = rng u2"
    by (simp_all add: draw_def Let_def)
  show ?case
  proof (cases r1)
    case (Inl e)
    then show ?thesis by (simp add: d1 d2 r)
  next
    case (Inr sampled)
    then show ?thesis using Cons.IH [OF u] by (simp add: d1 d2 r)
  qed
qed

lemma random_sample_distinct:
  assumes "valid_lib lib" and "random_sample lib population k w = (w', Inr xs)"
    and "distinct population"
  shows "distinct xs"
proof -
  from assms(2) have k: "0 \<le> k" "k \<le> int (length population)"
    by (auto simp: random_sample_def split: if_splits)
  let ?n = "length population"
  let ?js = "fst (positions lib (rng w) ?n (nat k))"
  from assms(2) k have xs: "xs = map (\<lambda>j. population ! j) ?js"
    by (auto simp: random_sample_def split: prod.splits)
  from k have "nat k \<le> ?n" by simp
  with assms(1) have d: "distinct ?js" and b: "\<forall>j \<in> set ?js. j < ?n"
    unfolding valid_lib_def by blast+
  have "inj_on (\<lambda>j. population ! j) (set ?js)"
    using inj_on_nth [OF assms(3) b] .
  with d show ?thesis
    by (simp add: xs distinct_map)
qed

lemma sample_loop_trace:
  "sample_loop lib cim cap cats ids w = (w', Inr ids') \<Longrightarrow>
     \<exists>ds ws. length ds = length cats \<and> length ws = Suc (length cats) \<and>
        ws ! 0 = w \<and> ws ! length cats = w' \<and>
        (\<forall>i < length cats. draw lib cim cap (cats ! i) (ws ! i) = (ws ! Suc i, Inr (ds ! i))) \<and>
        ids' = ids \<union> (\<Union>s \<in> set ds. img_id ` set s)"
proof (induction cats arbitrary: ids w)
  case Nil
  then have "ids' = ids" and "w' = w" by simp_all
  then show ?case
    by (intro exI [of _ "[]"] exI [of _ "[w]"]) simp
next
  case (Cons c cats)
  obtain w1 r where d: "draw lib cim cap c w = (w1, r)"
    by (cases "draw lib cim cap c w")
  show ?case
  proof (cases r)
    case (Inl e)
    with d Cons.prems show ?thesis by simp
  next
    case (Inr sampled)
    with d Cons.prems have
      "sample_loop lib cim cap cats (ids \<union> img_id ` set sampled) w1 = (w', Inr ids')"
      by (simp add: foldl_insert_ids)
    from Cons.IH [OF this] obtain ds ws
      where l: "length ds = length cats" "length ws = Suc (length cats)"
        and w0: "ws ! 0 = w1" and wn: "ws ! length cats = w'"
        and dr: "\<forall>i < length cats. draw lib cim cap (cats ! i) (ws ! i) = (ws ! Suc i, Inr (ds ! i))"
        and u: "ids' = ids \<union> img_id ` set sampled \<union> (\<Union>s \<in> set ds. img_id ` set s)"
      by blast
    have "\<forall>i < length (c # cats).
        draw lib cim cap ((c # cats) ! i) ((w # ws) ! i) = ((w # ws) ! Suc i, Inr ((sampled # ds) ! i))"
    proof (intro allI impI)
      fix i assume i: "i < length (c # cats)"
      show "draw lib cim cap ((c # cats) ! i) ((w # ws) ! i) =
          ((w # ws) ! Suc i, Inr ((sampled # ds) ! i))"
      proof (cases i)
        case 0
        with d Inr w0 show ?thesis by simp
      next
        case (Suc j)
        with i dr show ?thesis by simp
      qed
    qed
    moreover have "ids' = ids \<union> (\<Union>s \<in> set (sampled # ds). img_id ` set s)"
      using u by auto
    ultimately show ?thesis
      using l wn
      by (intro exI [of _ "sampled # ds"] exI [of _ "w # ws"]) simp
  qed
qed

lemma sample_loop_Nil_tops:
  "sampling lib data n cap seed w = (w1, r) \<Longrightarrow> top_categories data n = [] \<Longrightarrow>
     w1 = random_seed lib seed w \<and> r = Inr {}"
  by (simp add: sampling_def Let_def)

lemma top_categories_all_90:
  assumes "\<forall>ann \<in> set (annotations data). category_id ann = 90"
  shows "top_categories data n = []"
proof -
  have "category_id ` set (annotations data) - {90} = {}"
    using assms by auto
  with top_categories_subset [of data n] show ?thesis by simp
qed

section \<open>Concrete runs\<close>

text \<open>
  The demonstration dataset with N = 2, a cap of 1 and seed 42: the generator selects
  image 1 for category 1 and image 3 for category 2.
\<close>

lemma demo_tops: "top_categories demo_data 2 = [1, 2]"
  by (simp add: top_categories_def most_common_def category_counts_def Counter_def
        demo_data_def mk_ann_def)

lemma demo_pool_1: "images_containing demo_data 1 = [mk_image 1 ''a.jpg'', mk_image 3 ''c.jpg'', mk_image 4 ''d.jpg'']"
  by (simp add: images_containing_def has_category_def demo_data_def mk_ann_def mk_image_def)

lemma demo_pool_2: "images_containing demo_data 2 = [mk_image 1 ''a.jpg'', mk_image 3 ''c.jpg'', mk_image 4 ''d.jpg'']"
  by (simp add: images_containing_def has_category_def demo_data_def mk_ann_def mk_image_def)

lemma demo_sampling:
  "sampling demo_lib demo_data 2 1 42 demo_world = (demo_world\<lparr>rng := 44\<rparr>, Inr {1, 3})"
  by (simp add: sampling_def Let_def demo_tops pool_eq demo_pool_1 demo_pool_2 draw_def
       random_sample_def random_seed_def demo_lib_def demo_world_def mk_image_def
       insert_commute)

lemma demo_sampled_images:
  "sampled_images demo_data {1, 3} = [mk_image 1 ''a.jpg'', mk_image 3 ''c.jpg'']"
  by (simp add: sampled_images_def demo_data_def mk_image_def)

lemma demo_sampled_annotations:
  "sampled_annotations demo_data {1, 3} = [mk_ann 1 1, mk_ann 3 1, mk_ann 3 2, mk_ann 1 2]"
  by (simp add: sampled_annotations_def demo_data_def mk_ann_def)

lemma demo_copies: "copies_succeed demo_world imgs"
  by (simp add: copies_succeed_def demo_world_def)

lemma demo_run:
  "create_focused_sample_no_cat90 demo_lib demo_data 2 1 42 demo_world =
     (demo_world\<lparr>rng := 44,
        out_json := Some (sampled_data demo_data {1, 3}),
        out_images := {''a.jpg''},
        out_summary := Some (1, 1),
        out_report := Some (category_info demo_data 2 [1, 2] (image_categories [1, 2] demo_data) {1, 3})\<rparr>,
      Inr (sampled_data demo_data {1, 3}, [1, 2]))"
proof -
  have c: "copies_succeed (demo_world\<lparr>rng := 44\<rparr>) (sampled_images demo_data {1, 3})"
    by (simp add: copies_succeed_rng demo_copies)
  show ?thesis
    unfolding run_eq [OF demo_sampling] emit_succeed [OF c] Let_def demo_tops demo_sampled_images
    by (simp add: demo_world_def mk_image_def)
qed

text \<open>
  The same run in a world where copying \<^verbatim>\<open>a.jpg\<close> raises \<^verbatim>\<open>FileNotFoundError\<close>, as it does
  for a name with a directory part: the JSON file is written, nothing is copied, and the
  run ends with the exception, before the counters and the report.
\<close>

lemma demo_run_copy_fails:
  "create_focused_sample_no_cat90 demo_lib demo_data 2 1 42
     (demo_world\<lparr>copy2_error := (\<lambda>f. if f = ''a.jpg'' then Some FileNotFoundError else None)\<rparr>) =
     (demo_world\<lparr>rng := 44,
        copy2_error := (\<lambda>f. if f = ''a.jpg'' then Some FileNotFoundError else None),
        out_json := Some (sampled_data demo_data {1, 3})\<rparr>,
      Inl (OSError FileNotFoundError))"
proof -
  let ?w = "demo_world\<lparr>copy2_error := (\<lambda>f. if f = ''a.jpg'' then Some FileNotFoundError else None)\<rparr>"
  have s: "sampling demo_lib demo_data 2 1 42 ?w = (?w\<lparr>rng := 44\<rparr>, Inr {1, 3})"
    by (simp add: sampling_def Let_def demo_tops pool_eq demo_pool_1 demo_pool_2 draw_def
       random_sample_def random_seed_def demo_lib_def demo_world_def mk_image_def
       insert_commute)
  show ?thesis
    unfolding run_eq [OF s]
    by (simp add: emit_def Let_def demo_sampled_images demo_world_def mk_image_def)
qed

text \<open>
  The run on the dataset read from a file whose category is written \<^verbatim>\<open>{"id": -0}\<close>: the
  decoder makes the integer 0 of the token, and the encoder writes \<^verbatim>\<open>0\<close>.
\<close>

lemma file_categories_loaded:
  "map (json_load demo_float_text) file_categories = [PyDict [(''id'', PyInt 0)]]"
  by code_simp

lemma file_categories_dumped:
  "map json_dump [PyDict [(''id'', PyInt 0)]] = [JObject [(''id'', JNumber ''0'')]]"
  by code_simp

lemma file_data_categories:
  "categories file_data = map (json_load demo_float_text) file_categories"
  by (simp add: file_data_def)

lemma file_data_categories_eq: "categories file_data = [PyDict [(''id'', PyInt 0)]]"
  by (simp only: file_data_categories file_categories_loaded)

lemma file_run_written:
  "written_categories (fst (create_focused_sample_no_cat90 demo_lib file_data 2 1 42 demo_world)) =
     Some [JObject [(''id'', JNumber ''0'')]]"
proof -
  obtain w' r where run: "create_focused_sample_no_cat90 demo_lib file_data 2 1 42 demo_world = (w', r)"
    by (cases "create_focused_sample_no_cat90 demo_lib file_data 2 1 42 demo_world")
  from run_not_ValueError [of 1 demo_lib file_data 2 42 demo_world] run
  have "r \<noteq> Inl ValueError" by simp
  from written_categories_run [OF run this] show ?thesis
    by (simp only: run fst_conv file_data_categories_eq file_categories_dumped)
qed

section \<open>The claims\<close>

text \<open>
  C1. No annotation of the output has category 90. Whenever the run gets as far as
  writing \<^verbatim>\<open>annotations.json\<close> (it does unless \<^verbatim>\<open>random.sample\<close> raises \<^verbatim>\<open>ValueError\<close>,
  which needs a negative cap), every annotation of the written dataset has a category
  other than 90, and a dataset that is returned is the written one.
\<close>

theorem no_excluded_category:
  assumes "create_focused_sample_no_cat90 lib data n cap seed w = (w', r)"
  shows "(0 \<le> cap \<longrightarrow> r \<noteq> Inl ValueError) \<and>
     (r \<noteq> Inl ValueError \<longrightarrow>
        (\<exists>d. out_json w' = Some d \<and>
           (\<forall>ann \<in> set (annotations d). category_id ann \<noteq> 90) \<and>
           (\<forall>d' tops. r = Inr (d', tops) \<longrightarrow> d' = d)))"
proof (intro conjI impI)
  assume "0 \<le> cap"
  with run_ValueError [of lib data n cap seed w w'] assms show "r \<noteq> Inl ValueError"
    by auto
next
  assume "r \<noteq> Inl ValueError"
  from run_output [OF assms this] obtain w1 ids
    where j: "out_json w' = Some (sampled_data data ids)"
      and r: "\<forall>d' tops. r = Inr (d', tops) \<longrightarrow> d' = sampled_data data ids"
    by blast
  have "\<forall>ann \<in> set (annotations (sampled_data data ids)). category_id ann \<noteq> 90"
    by (simp add: sampled_data_simps sampled_annotations_def)
  with j r show "\<exists>d. out_json w' = Some d \<and>
      (\<forall>ann \<in> set (annotations d). category_id ann \<noteq> 90) \<and>
      (\<forall>d' tops. r = Inr (d', tops) \<longrightarrow> d' = d)"
    by blast
qed

theorem no_excluded_category_witness:
  "snd (create_focused_sample_no_cat90 demo_lib demo_data 2 1 42 demo_world) \<noteq> Inl ValueError \<and>
   (\<exists>d. out_json (fst (create_focused_sample_no_cat90 demo_lib demo_data 2 1 42 demo_world)) = Some d \<and>
      annotations d = [mk_ann 1 1, mk_ann 3 1, mk_ann 3 2, mk_ann 1 2] \<and>
      list_all (\<lambda>ann. category_id ann \<noteq> 90) (annotations d))"
  using no_excluded_category [OF demo_run]
  by (simp add: demo_run sampled_data_simps demo_sampled_annotations list_all_iff)

text \<open>
  C2. Every image id referenced by an annotation of the output is the id of an image of
  the output image list. This holds for every input, also one whose annotations refer
  to images that are not in the image list: the selected ids are ids of sampled image
  records.
\<close>

theorem annotation_images_present:
  assumes "valid_lib lib"
    and "create_focused_sample_no_cat90 lib data n cap seed w = (w', r)"
  shows "(0 \<le> cap \<longrightarrow> r \<noteq> Inl ValueError) \<and>
     (r \<noteq> Inl ValueError \<longrightarrow>
        (\<exists>d. out_json w' = Some d \<and>
           (\<forall>ann \<in> set (annotations d). \<exists>img \<in> set (images d). img_id img = image_id ann) \<and>
           (\<forall>d' tops. r = Inr (d', tops) \<longrightarrow> d' = d)))"
proof (intro conjI impI)
  assume "0 \<le> cap"
  with run_ValueError [of lib data n cap seed w w'] assms(2) show "r \<noteq> Inl ValueError"
    by auto
next
  assume "r \<noteq> Inl ValueError"
  from run_output [OF assms(2) this] obtain w1 ids
    where s: "sampling lib data n cap seed w = (w1, Inr ids)"
      and j: "out_json w' = Some (sampled_data data ids)"
      and r: "\<forall>d' tops. r = Inr (d', tops) \<longrightarrow> d' = sampled_data data ids"
    by blast
  have sub: "ids \<subseteq> img_id ` set (images data)"
    using sampling_ok(1) [OF assms(1) s] images_containing_subset [of data] by blast
  have "\<exists>img \<in> set (sampled_images data ids). img_id img = image_id ann"
    if "ann \<in> set (sampled_annotations data ids)" for ann
  proof -
    from that have "image_id ann \<in> ids"
      by (simp add: sampled_annotations_def)
    with sub obtain img where "img \<in> set (images data)" and "img_id img = image_id ann"
      by auto
    with \<open>image_id ann \<in> ids\<close> show ?thesis
      by (auto simp: sampled_images_def)
  qed
  then have "\<forall>ann \<in> set (annotations (sampled_data data ids)).
      \<exists>img \<in> set (images (sampled_data data ids)). img_id img = image_id ann"
    by (simp add: sampled_data_simps)
  with j r show "\<exists>d. out_json w' = Some d \<and>
      (\<forall>ann \<in> set (annotations d). \<exists>img \<in> set (images d). img_id img = image_id ann) \<and>
      (\<forall>d' tops. r = Inr (d', tops) \<longrightarrow> d' = d)"
    by blast
qed

theorem annotation_images_present_witness:
  "valid_lib demo_lib \<and>
   snd (create_focused_sample_no_cat90 demo_lib demo_data 2 1 42 demo_world) \<noteq> Inl ValueError \<and>
   (\<exists>d. out_json (fst (create_focused_sample_no_cat90 demo_lib demo_data 2 1 42 demo_world)) = Some d \<and>
      map image_id (annotations d) = [1, 3, 3, 1] \<and>
      map img_id (images d) = [1, 3] \<and>
      list_all (\<lambda>ann. image_id ann \<in> img_id ` set (images d)) (annotations d))"
  using annotation_images_present [OF valid_demo_lib demo_run]
  by (simp add: valid_demo_lib demo_run sampled_data_simps demo_sampled_annotations
        demo_sampled_images mk_ann_def mk_image_def)

text \<open>
  C3. Two runs on the same dataset with the same parameters and the same seed select the
  same set of image ids, whatever the state of the generator before the call and
  whatever the file system holds: the outcome of the sampling stage (the set of selected
  ids, or the error) does not depend on the world. So both runs write the same dataset,
  and return the same one when both return; when the two file systems agree on the
  source files and on what can be copied, both runs end the same way.
\<close>

theorem sampling_deterministic:
  "snd (sampling lib data n cap seed w1) = snd (sampling lib data n cap seed w2) \<and>
   (snd (sampling lib data n cap seed w1) \<noteq> Inl ValueError \<longrightarrow>
      out_json (fst (create_focused_sample_no_cat90 lib data n cap seed w1)) =
      out_json (fst (create_focused_sample_no_cat90 lib data n cap seed w2))) \<and>
   (\<forall>d1 t1 d2 t2.
      snd (create_focused_sample_no_cat90 lib data n cap seed w1) = Inr (d1, t1) \<and>
      snd (create_focused_sample_no_cat90 lib data n cap seed w2) = Inr (d2, t2) \<longrightarrow>
        d1 = d2 \<and> t1 = t2) \<and>
   (src_files w1 = src_files w2 \<and> copy2_error w1 = copy2_error w2 \<longrightarrow>
      snd (create_focused_sample_no_cat90 lib data n cap seed w1) =
      snd (create_focused_sample_no_cat90 lib data n cap seed w2))"
proof -
  let ?run = "create_focused_sample_no_cat90 lib data n cap seed"
  have "rng (random_seed lib seed w1) = rng (random_seed lib seed w2)"
    by (simp add: random_seed_def)
  then have same: "snd (sampling lib data n cap seed w1) = snd (sampling lib data n cap seed w2)"
    unfolding sampling_def Let_def by (rule sample_loop_rng)
  obtain u1 r1 where s1: "sampling lib data n cap seed w1 = (u1, r1)"
    by (cases "sampling lib data n cap seed w1")
  obtain u2 r2 where s2: "sampling lib data n cap seed w2 = (u2, r2)"
    by (cases "sampling lib data n cap seed w2")
  from same s1 s2 have r: "r2 = r1" by simp
  have json: "out_json (fst (?run w1)) = out_json (fst (?run w2))"
    if "snd (sampling lib data n cap seed w1) \<noteq> Inl ValueError"
  proof (cases r1)
    case (Inl e)
    with s1 have "e = ValueError"
      using sampling_error [of lib data n cap seed w1 u1 e] by simp
    with that s1 Inl show ?thesis by simp
  next
    case (Inr ids)
    from run_after_sampling(1) [OF s1 [unfolded Inr]]
      run_after_sampling(1) [OF s2 [unfolded r Inr]]
    show ?thesis by simp
  qed
  have ret: "d1 = d2 \<and> t1 = t2"
    if a: "snd (?run w1) = Inr (d1, t1)" and b: "snd (?run w2) = Inr (d2, t2)"
    for d1 t1 d2 t2
  proof (cases r1)
    case (Inl e)
    with s1 a show ?thesis
      by (simp add: create_focused_sample_no_cat90_def)
  next
    case (Inr ids)
    from run_after_sampling(2) [OF s1 [unfolded Inr] a]
      run_after_sampling(2) [OF s2 [unfolded r Inr] b]
    show ?thesis by simp
  qed
  have cong: "snd (?run w1) = snd (?run w2)"
    if "src_files w1 = src_files w2 \<and> copy2_error w1 = copy2_error w2"
    using that same by (intro run_result_cong) simp_all
  from same json ret cong show ?thesis by blast
qed

theorem sampling_deterministic_witness:
  "snd (sampling demo_lib demo_data 2 1 42 demo_world) = Inr {1, 3} \<and>
   snd (sampling demo_lib demo_data 2 1 42
          (demo_world\<lparr>rng := 1000, src_files := {}, out_images := {''old.jpg''}\<rparr>)) = Inr {1, 3} \<and>
   out_json (fst (create_focused_sample_no_cat90 demo_lib demo_data 2 1 42
          (demo_world\<lparr>rng := 1000, src_files := {}, out_images := {''old.jpg''}\<rparr>))) =
     Some (sampled_data demo_data {1, 3})"
proof -
  let ?w = "demo_world\<lparr>rng := 1000, src_files := {}, out_images := {''old.jpg''}\<rparr>"
  note t = sampling_deterministic [of demo_lib demo_data 2 1 42 demo_world ?w]
  from t have "snd (sampling demo_lib demo_data 2 1 42 ?w) = Inr {1, 3}"
    by (simp add: demo_sampling)
  moreover from t have "out_json (fst (create_focused_sample_no_cat90 demo_lib demo_data 2 1 42 ?w)) =
      Some (sampled_data demo_data {1, 3})"
    by (simp add: demo_sampling demo_run)
  ultimately show ?thesis
    by (simp add: demo_sampling)
qed

text \<open>
  C4. In a run that gets past the sampling stage, the loop makes one draw for each top
  category, in order, each on the generator state the draw before left. The pool of the
  draw is the list of eligible images that contain the category, and the draw returns
  \<open>min cap (length pool)\<close> images: at most the cap, at most the pool, exactly the cap when
  the pool is larger, all of them from the pool, and without repetition when the image
  list has none. The selected ids are the ids of the images of these draws, and they
  decide the written dataset. The run gets past the sampling stage for every cap of at
  least 0; with a negative cap \<^verbatim>\<open>random.sample\<close> raises and nothing is drawn.
\<close>

theorem quota_sizes:
  fixes data :: dataset and n :: int
  defines "tops \<equiv> top_categories data n"
  defines "ic \<equiv> image_categories tops data"
  defines "cim \<equiv> category_image_map (eligible_images data ic) ic"
  assumes lib: "valid_lib lib"
    and run: "create_focused_sample_no_cat90 lib data n cap seed w = (w', r)"
  shows "(0 \<le> cap \<longrightarrow> r \<noteq> Inl ValueError) \<and>
     (r \<noteq> Inl ValueError \<longrightarrow>
        (\<exists>ds ws.
           length ds = length tops \<and> length ws = Suc (length tops) \<and>
           ws ! 0 = random_seed lib seed w \<and>
           (\<forall>i < length tops.
              draw lib cim cap (tops ! i) (ws ! i) = (ws ! Suc i, Inr (ds ! i)) \<and>
              cim (tops ! i) = images_containing data (tops ! i) \<and>
              images_containing data (tops ! i) =
                filter (has_category data (tops ! i)) (eligible_images data ic) \<and>
              int (length (ds ! i)) =
                min cap (int (length (images_containing data (tops ! i)))) \<and>
              int (length (ds ! i)) \<le> cap \<and>
              length (ds ! i) \<le> length (images_containing data (tops ! i)) \<and>
              (cap < int (length (images_containing data (tops ! i))) \<longrightarrow>
                 int (length (ds ! i)) = cap) \<and>
              set (ds ! i) \<subseteq> set (images_containing data (tops ! i)) \<and>
              (distinct (images data) \<longrightarrow> distinct (ds ! i))) \<and>
           sampling lib data n cap seed w =
             (ws ! length tops, Inr (\<Union>s \<in> set ds. img_id ` set s)) \<and>
           out_json w' = Some (sampled_data data (\<Union>s \<in> set ds. img_id ` set s))))"
proof (intro conjI impI)
  assume "0 \<le> cap"
  with run_ValueError [of lib data n cap seed w w'] run show "r \<noteq> Inl ValueError"
    by auto
next
  assume "r \<noteq> Inl ValueError"
  from run_output [OF run this] obtain w1 ids
    where s: "sampling lib data n cap seed w = (w1, Inr ids)"
      and j: "out_json w' = Some (sampled_data data ids)"
    by blast
  from s have "sample_loop lib cim cap tops {} (random_seed lib seed w) = (w1, Inr ids)"
    by (simp add: sampling_def Let_def tops_def ic_def cim_def)
  from sample_loop_trace [OF this] obtain ds ws
    where l: "length ds = length tops" "length ws = Suc (length tops)"
      and w0: "ws ! 0 = random_seed lib seed w" and wn: "ws ! length tops = w1"
      and dr: "\<forall>i < length tops.
          draw lib cim cap (tops ! i) (ws ! i) = (ws ! Suc i, Inr (ds ! i))"
      and u: "ids = {} \<union> (\<Union>s \<in> set ds. img_id ` set s)"
    by blast
  have each: "draw lib cim cap (tops ! i) (ws ! i) = (ws ! Suc i, Inr (ds ! i)) \<and>
      cim (tops ! i) = images_containing data (tops ! i) \<and>
      images_containing data (tops ! i) =
        filter (has_category data (tops ! i)) (eligible_images data ic) \<and>
      int (length (ds ! i)) = min cap (int (length (images_containing data (tops ! i)))) \<and>
      int (length (ds ! i)) \<le> cap \<and>
      length (ds ! i) \<le> length (images_containing data (tops ! i)) \<and>
      (cap < int (length (images_containing data (tops ! i))) \<longrightarrow>
         int (length (ds ! i)) = cap) \<and>
      set (ds ! i) \<subseteq> set (images_containing data (tops ! i)) \<and>
      (distinct (images data) \<longrightarrow> distinct (ds ! i))"
    if i: "i < length tops" for i
  proof -
    from i have t: "tops ! i \<in> set tops" by simp
    from i dr have d: "draw lib cim cap (tops ! i) (ws ! i) = (ws ! Suc i, Inr (ds ! i))"
      by blast
    have p: "cim (tops ! i) = images_containing data (tops ! i)"
      using t by (simp add: cim_def ic_def pool_eq)
    have e: "images_containing data (tops ! i) =
        filter (has_category data (tops ! i)) (eligible_images data ic)"
      using t
      by (auto simp: images_containing_def ic_def eligible_images_eq image_categories_get
            has_category_def intro!: filter_cong)
    from draw_ok [OF lib d]
    have len: "int (length (ds ! i)) = min cap (int (length (images_containing data (tops ! i))))"
      and sub: "set (ds ! i) \<subseteq> set (images_containing data (tops ! i))"
      by (simp_all add: p)
    have dist: "distinct (ds ! i)" if "distinct (images data)"
    proof -
      from that have "distinct (cim (tops ! i))"
        by (simp add: p images_containing_def)
      with d show ?thesis
        unfolding draw_def Let_def by (rule random_sample_distinct [OF lib])
    qed
    from len have "int (length (ds ! i)) \<le> cap"
      and "length (ds ! i) \<le> length (images_containing data (tops ! i))"
      and "cap < int (length (images_containing data (tops ! i))) \<longrightarrow> int (length (ds ! i)) = cap"
      by simp_all
    with d p e len sub dist show ?thesis by blast
  qed
  from u have ids: "ids = (\<Union>s \<in> set ds. img_id ` set s)" by simp
  from s wn have "sampling lib data n cap seed w =
      (ws ! length tops, Inr (\<Union>s \<in> set ds. img_id ` set s))"
    by (simp add: ids)
  moreover from j have "out_json w' = Some (sampled_data data (\<Union>s \<in> set ds. img_id ` set s))"
    by (simp add: ids)
  ultimately show "\<exists>ds ws.
           length ds = length tops \<and> length ws = Suc (length tops) \<and>
           ws ! 0 = random_seed lib seed w \<and>
           (\<forall>i < length tops.
              draw lib cim cap (tops ! i) (ws ! i) = (ws ! Suc i, Inr (ds ! i)) \<and>
              cim (tops ! i) = images_containing data (tops ! i) \<and>
              images_containing data (tops ! i) =
                filter (has_category data (tops ! i)) (eligible_images data ic) \<and>
              int (length (ds ! i)) =
                min cap (int (length (images_containing data (tops ! i)))) \<and>
              int (length (ds ! i)) \<le> cap \<and>
              length (ds ! i) \<le> length (images_containing data (tops ! i)) \<and>
              (cap < int (length (images_containing data (tops ! i))) \<longrightarrow>
                 int (length (ds ! i)) = cap) \<and>
              set (ds ! i) \<subseteq> set (images_containing data (tops ! i)) \<and>
              (distinct (images data) \<longrightarrow> distinct (ds ! i))) \<and>
           sampling lib data n cap seed w =
             (ws ! length tops, Inr (\<Union>s \<in> set ds. img_id ` set s)) \<and>
           out_json w' = Some (sampled_data data (\<Union>s \<in> set ds. img_id ` set s))"
    using l w0 each by blast
qed

theorem quota_sizes_witness:
  "valid_lib demo_lib \<and> top_categories demo_data 2 = [1, 2] \<and>
   length (images_containing demo_data 1) = 3 \<and>
   length (images_containing demo_data 2) = 3 \<and>
   (\<exists>ds :: image list list. length ds = 2 \<and> length (ds ! 0) = 1 \<and> length (ds ! 1) = 1 \<and>
      out_json (fst (create_focused_sample_no_cat90 demo_lib demo_data 2 1 42 demo_world)) =
        Some (sampled_data demo_data (\<Union>s \<in> set ds. img_id ` set s)))"
proof -
  note t = quota_sizes [OF valid_demo_lib demo_run, unfolded demo_tops]
  have nv: "(Inr (sampled_data demo_data {1, 3}, [1, 2]) :: error + dataset \<times> int list) \<noteq>
      Inl ValueError"
    by simp
  from t [THEN conjunct2, THEN mp, OF nv] obtain ds ws
    where f: "length ds = length [1, 2 :: int] \<and>
      length ws = Suc (length [1, 2 :: int]) \<and>
      ws ! 0 = random_seed demo_lib 42 demo_world \<and>
      (\<forall>i<length [1, 2 :: int].
          draw demo_lib
           (category_image_map
             (eligible_images demo_data (image_categories [1, 2] demo_data))
             (image_categories [1, 2] demo_data))
           1 ([1, 2] ! i) (ws ! i) =
          (ws ! Suc i, Inr (ds ! i)) \<and>
          category_image_map
           (eligible_images demo_data (image_categories [1, 2] demo_data))
           (image_categories [1, 2] demo_data) ([1, 2] ! i) =
          images_containing demo_data ([1, 2] ! i) \<and>
          images_containing demo_data ([1, 2] ! i) =
          filter (has_category demo_data ([1, 2] ! i))
           (eligible_images demo_data (image_categories [1, 2] demo_data)) \<and>
          int (length (ds ! i)) =
          min 1 (int (length (images_containing demo_data ([1, 2] ! i)))) \<and>
          int (length (ds ! i)) \<le> 1 \<and>
          length (ds ! i) \<le> length (images_containing demo_data ([1, 2] ! i)) \<and>
          (1 < int (length (images_containing demo_data ([1, 2] ! i))) \<longrightarrow>
           int (length (ds ! i)) = 1) \<and>
          set (ds ! i) \<subseteq> set (images_containing demo_data ([1, 2] ! i)) \<and>
          (distinct (images demo_data) \<longrightarrow> distinct (ds ! i))) \<and>
      sampling demo_lib demo_data 2 1 42 demo_world =
      (ws ! length [1, 2 :: int], Inr (\<Union>s\<in>set ds. img_id ` set s)) \<and>
      out_json
       (demo_world
        \<lparr>rng := 44, out_json := Some (sampled_data demo_data {1, 3}),
           out_images := {''a.jpg''}, out_summary := Some (1, 1),
           out_report :=
             Some
              (category_info demo_data 2 [1, 2]
                (image_categories [1, 2] demo_data) {1, 3})\<rparr>) =
      Some (sampled_data demo_data (\<Union>s\<in>set ds. img_id ` set s))"
    by (elim exE)
  note l = f [THEN conjunct1]
  note each = f [THEN conjunct2, THEN conjunct2, THEN conjunct2, THEN conjunct1, rule_format]
  note j = f [THEN conjunct2, THEN conjunct2, THEN conjunct2, THEN conjunct2, THEN conjunct2]
  from each [of 0] each [of 1]
  have "int (length (ds ! 0)) = min 1 (int (length (images_containing demo_data 1)))"
    and "int (length (ds ! 1)) = min 1 (int (length (images_containing demo_data 2)))"
    by simp_all
  then have "length (ds ! 0) = 1" and "length (ds ! 1) = 1"
    by (simp_all add: demo_pool_1 demo_pool_2)
  moreover from j have "out_json (fst (create_focused_sample_no_cat90 demo_lib demo_data 2 1 42
      demo_world)) = Some (sampled_data demo_data (\<Union>s \<in> set ds. img_id ` set s))"
    by (simp add: demo_run)
  moreover from l have "length ds = 2" by simp
  ultimately have "length ds = 2 \<and> length (ds ! 0) = 1 \<and> length (ds ! 1) = 1 \<and>
      out_json (fst (create_focused_sample_no_cat90 demo_lib demo_data 2 1 42 demo_world)) =
        Some (sampled_data demo_data (\<Union>s \<in> set ds. img_id ` set s))"
    by simp
  then have "\<exists>ds :: image list list. length ds = 2 \<and> length (ds ! 0) = 1 \<and> length (ds ! 1) = 1 \<and>
      out_json (fst (create_focused_sample_no_cat90 demo_lib demo_data 2 1 42 demo_world)) =
        Some (sampled_data demo_data (\<Union>s \<in> set ds. img_id ` set s))"
    by (rule exI [of _ ds])
  with valid_demo_lib show ?thesis
    by (simp add: demo_tops demo_pool_1 demo_pool_2)
qed

text \<open>
  C5. The top-N list holds the N category ids with the highest annotation counts among
  the annotations whose category is not 90, in descending order of count; annotations of
  category 90 are counted nowhere. In detail: the list has no repetition; its members are
  category ids of annotations and none is 90; it has N members, or every counted
  category when there are fewer than N (and none for N below 1); counts never increase
  along the list; a category outside the list (other than 90) has a count no higher than
  any member; the counter gives each category its annotation count, and 0 to category 90.
\<close>

theorem top_categories_ranking:
  "distinct (top_categories data n) \<and>
   set (top_categories data n) \<subseteq> category_id ` set (annotations data) - {90} \<and>
   length (top_categories data n) =
     min (nat n) (card (category_id ` set (annotations data) - {90})) \<and>
   sorted_wrt (\<lambda>a b. annotation_count data b \<le> annotation_count data a)
     (top_categories data n) \<and>
   (\<forall>c \<in> set (top_categories data n). \<forall>c'.
      c' \<noteq> 90 \<and> c' \<notin> set (top_categories data n) \<longrightarrow>
        annotation_count data c' \<le> annotation_count data c) \<and>
   (\<forall>c. counter_get (category_counts data) c =
      (if c = 90 then 0 else annotation_count data c))"
  using top_categories_distinct [of data n] top_categories_subset [of data n]
    top_categories_length [of data n] top_categories_sorted [of data n]
    top_categories_top [of _ data n] category_counts_get [of data]
  by blast

theorem top_categories_ranking_witness:
  "top_categories demo_data 2 = [1, 2] \<and>
   length (top_categories demo_data 2) =
     min (nat 2) (card (category_id ` set (annotations demo_data) - {90})) \<and>
   (3::int) \<noteq> 90 \<and> 3 \<notin> set (top_categories demo_data 2) \<and>
   annotation_count demo_data 3 \<le> annotation_count demo_data 2 \<and>
   counter_get (category_counts demo_data) 90 = 0"
proof -
  have t: "top_categories demo_data 2 = [1, 2]"
    by (simp add: top_categories_def most_common_def category_counts_def Counter_def
          demo_data_def mk_ann_def)
  from top_categories_ranking [of demo_data 2] t show ?thesis
    by simp
qed

text \<open>
  C6. The category list handed to \<^verbatim>\<open>json.dump\<close> is the list \<^verbatim>\<open>json.load\<close> made of the input's
  category list, unchanged in content and order, in the written file and in the returned
  dataset. The text written for it is the encoding of the decoded input; it is the
  input's text only where the input is written the way the encoder writes.
\<close>

theorem categories_passed_through:
  assumes "create_focused_sample_no_cat90 lib data n cap seed w = (w', r)"
    and "categories data = map (json_load float_text) cats"
  shows "(0 \<le> cap \<longrightarrow> r \<noteq> Inl ValueError) \<and>
     (r \<noteq> Inl ValueError \<longrightarrow>
        (\<exists>d. out_json w' = Some d \<and> categories d = categories data \<and>
           written_categories w' = Some (map (\<lambda>c. json_dump (json_load float_text c)) cats) \<and>
           (\<forall>d' tops. r = Inr (d', tops) \<longrightarrow> d' = d)))"
proof (intro conjI impI)
  assume "0 \<le> cap"
  with run_ValueError [of lib data n cap seed w w'] assms(1) show "r \<noteq> Inl ValueError"
    by auto
next
  assume nv: "r \<noteq> Inl ValueError"
  from run_output [OF assms(1) this] obtain w1 ids
    where j: "out_json w' = Some (sampled_data data ids)"
      and r: "\<forall>d' tops. r = Inr (d', tops) \<longrightarrow> d' = sampled_data data ids"
    by blast
  have "written_categories w' = Some (map (\<lambda>c. json_dump (json_load float_text c)) cats)"
    using written_categories_run [OF assms(1) nv] by (simp add: assms(2) comp_def)
  with j r show "\<exists>d. out_json w' = Some d \<and> categories d = categories data \<and>
      written_categories w' = Some (map (\<lambda>c. json_dump (json_load float_text c)) cats) \<and>
      (\<forall>d' tops. r = Inr (d', tops) \<longrightarrow> d' = d)"
    by (simp add: sampled_data_simps)
qed

theorem categories_passed_through_witness:
  "categories file_data = map (json_load demo_float_text) file_categories \<and>
   snd (create_focused_sample_no_cat90 demo_lib file_data 2 1 42 demo_world) \<noteq> Inl ValueError \<and>
   (\<exists>d. out_json (fst (create_focused_sample_no_cat90 demo_lib file_data 2 1 42 demo_world)) = Some d \<and>
      categories d = [PyDict [(''id'', PyInt 0)]]) \<and>
   written_categories (fst (create_focused_sample_no_cat90 demo_lib file_data 2 1 42 demo_world)) =
     Some [JObject [(''id'', JNumber ''0'')]]"
proof -
  obtain w' r where run: "create_focused_sample_no_cat90 demo_lib file_data 2 1 42 demo_world = (w', r)"
    by (cases "create_focused_sample_no_cat90 demo_lib file_data 2 1 42 demo_world")
  from categories_passed_through [OF run file_data_categories]
  have nv: "r \<noteq> Inl ValueError"
    and "\<exists>d. out_json w' = Some d \<and> categories d = categories file_data"
    by auto
  then have "snd (create_focused_sample_no_cat90 demo_lib file_data 2 1 42 demo_world) \<noteq>
      Inl ValueError"
    and "\<exists>d. out_json (fst (create_focused_sample_no_cat90 demo_lib file_data 2 1 42 demo_world)) =
        Some d \<and> categories d = [PyDict [(''id'', PyInt 0)]]"
    by (simp_all add: run file_data_categories_eq)
  with file_run_written file_data_categories show ?thesis
    by blast
qed

text \<open>
  Identity of the text, byte for byte, does not hold: for the input file with the
  category \<^verbatim>\<open>{"id": -0}\<close> the written category list is \<^verbatim>\<open>{"id": 0}\<close>.
\<close>

theorem categories_text_changed:
  "file_categories = [JObject [(''id'', JNumber ''-0'')]] \<and>
   categories file_data = map (json_load demo_float_text) file_categories \<and>
   written_categories (fst (create_focused_sample_no_cat90 demo_lib file_data 2 1 42 demo_world)) =
     Some [JObject [(''id'', JNumber ''0'')]] \<and>
   written_categories (fst (create_focused_sample_no_cat90 demo_lib file_data 2 1 42 demo_world)) \<noteq>
     Some file_categories"
  using file_run_written file_data_categories by (simp add: file_categories_def)



text \<open>
  C8. The scenario: three images A, B, C with different ids; besides annotations of
  category 90, image A carries category 1 only, image C categories 1 and 2, image B
  nothing; B has an annotation of category 90. With N = 2 and a cap of 10 the run writes
  \<^verbatim>\<open>annotations.json\<close> with exactly the images A and C, the input annotations of a
  category other than 90 (none of them on B), and the input's category list. It ends
  neither in \<^verbatim>\<open>ValueError\<close> nor in \<^verbatim>\<open>ZeroDivisionError\<close>, what it returns is the written
  dataset with the top categories 1 and 2, and it does return when the files of A and
  C, where they exist, can be copied.
\<close>

theorem scenario_three_images:
  assumes lib: "valid_lib lib"
    and imgs: "images data = [A, B, C]"
    and ids: "distinct [img_id A, img_id B, img_id C]"
    and non90: "\<forall>ann \<in> set (annotations data). category_id ann \<noteq> 90 \<longrightarrow>
        (image_id ann = img_id A \<and> category_id ann = 1) \<or>
        (image_id ann = img_id C \<and> category_id ann \<in> {1, 2})"
    and A1: "has_category data 1 A" and C1: "has_category data 1 C"
    and C2: "has_category data 2 C" and B90: "has_category data 90 B"
  shows "\<exists>w' r d.
     create_focused_sample_no_cat90 lib data 2 10 seed w = (w', r) \<and>
     out_json w' = Some d \<and>
     images d = [A, C] \<and>
     annotations d = filter (\<lambda>ann. category_id ann \<noteq> 90) (annotations data) \<and>
     (\<forall>ann \<in> set (annotations d). image_id ann \<noteq> img_id B \<and> category_id ann \<noteq> 90) \<and>
     categories d = categories data \<and>
     r \<noteq> Inl ValueError \<and> r \<noteq> Inl ZeroDivisionError \<and>
     (\<forall>d' tops. r = Inr (d', tops) \<longrightarrow> d' = d \<and> set tops = {1, 2}) \<and>
     (copies_succeed w [A, C] \<longrightarrow> (\<exists>tops. r = Inr (d, tops) \<and> set tops = {1, 2}))"
proof -
  let ?tops = "top_categories data 2"
  have cats: "category_id ` set (annotations data) - {90} = {1, 2}"
  proof
    show "category_id ` set (annotations data) - {90} \<subseteq> {1, 2}"
      using non90 by auto
    show "{1, 2} \<subseteq> category_id ` set (annotations data) - {90}"
      using A1 C2 by (force simp: has_category_def)
  qed
  have "card (set ?tops) = length ?tops"
    by (simp add: distinct_card top_categories_distinct)
  also have "\<dots> = card {1, 2 :: int}"
    by (simp add: top_categories_length cats)
  finally have "card (set ?tops) = card {1, 2 :: int}" .
  moreover have "set ?tops \<subseteq> {1, 2}"
    using top_categories_subset [of data 2] by (simp add: cats)
  ultimately have tops: "set ?tops = {1, 2}"
    by (simp add: card_subset_eq)
  have nA2: "\<not> has_category data 2 A"
    using non90 ids by (auto simp: has_category_def)
  have nB1: "\<not> has_category data 1 B"
    using non90 ids by (auto simp: has_category_def)
  have nB2: "\<not> has_category data 2 B"
    using non90 ids by (auto simp: has_category_def)
  have p1: "images_containing data 1 = [A, C]"
    by (simp add: images_containing_def imgs A1 C1 nB1)
  have p2: "images_containing data 2 = [C]"
    by (simp add: images_containing_def imgs C2 nA2 nB2)
  obtain w1 sel where s: "sampling lib data 2 10 seed w = (w1, Inr sel)"
    using sampling_total [of 10 lib data 2 seed w] by auto
  have "\<forall>c \<in> set ?tops. int (length (images_containing data c)) \<le> 10"
    by (simp add: tops p1 p2)
  from sampling_ok(2) [OF lib s this] have sel: "sel = {img_id A, img_id C}"
    by (auto simp: tops p1 p2)
  have si: "sampled_images data sel = [A, C]"
    using ids by (simp add: sampled_images_def imgs sel)
  have sa: "sampled_annotations data sel =
      filter (\<lambda>ann. category_id ann \<noteq> 90) (annotations data)"
    unfolding sampled_annotations_def using non90 by (auto simp: sel intro!: filter_cong)
  have nb: "\<forall>ann \<in> set (sampled_annotations data sel).
      image_id ann \<noteq> img_id B \<and> category_id ann \<noteq> 90"
    using ids by (auto simp: sampled_annotations_def sel)
  obtain w' r where run: "create_focused_sample_no_cat90 lib data 2 10 seed w = (w', r)"
    by (cases "create_focused_sample_no_cat90 lib data 2 10 seed w")
  have nv: "r \<noteq> Inl ValueError"
    using run_ValueError [of lib data 2 10 seed w w'] run by auto
  from run_written [OF run nv] obtain u sel'
    where s': "sampling lib data 2 10 seed w = (u, Inr sel')"
      and j': "out_json w' = Some (sampled_data data sel')"
      and d': "\<forall>d' tops. r = Inr (d', tops) \<longrightarrow>
        d' = sampled_data data sel' \<and> tops = top_categories data 2 \<and>
        sampled_images data sel' \<noteq> [] \<and> out_report w' \<noteq> None"
      and z': "r = Inl ZeroDivisionError \<longrightarrow>
        sampled_images data sel' = [] \<and> out_summary w' = Some (0, 0) \<and>
        out_report w' = out_report w \<and> out_images w' = out_images w"
      and c': "copies_succeed w (sampled_images data sel') \<longrightarrow>
        out_images w' = out_images w \<union>
          set (map file_name (filter (\<lambda>img. file_name img \<in> src_files w) (sampled_images data sel'))) \<and>
        out_summary w' =
          Some (length (filter (\<lambda>img. file_name img \<in> src_files w) (sampled_images data sel')),
                length (filter (\<lambda>img. file_name img \<notin> src_files w) (sampled_images data sel'))) \<and>
        (if sampled_images data sel' = [] then r = Inl ZeroDivisionError
         else r = Inr (sampled_data data sel', top_categories data 2))"
    by blast
  from s s' have same: "sel' = sel" by simp
  let ?d = "sampled_data data sel"
  have j: "out_json w' = Some ?d"
    using j' by (simp add: same)
  have nz: "r \<noteq> Inl ZeroDivisionError"
    using z' si by (auto simp: same)
  have ret: "\<forall>d' tops. r = Inr (d', tops) \<longrightarrow> d' = ?d \<and> set tops = {1, 2}"
    using d' tops by (auto simp: same)
  have ok: "copies_succeed w [A, C] \<longrightarrow> (\<exists>tops. r = Inr (?d, tops) \<and> set tops = {1, 2})"
    using c' tops si by (auto simp: same)
  have "create_focused_sample_no_cat90 lib data 2 10 seed w = (w', r) \<and>
     out_json w' = Some ?d \<and>
     images ?d = [A, C] \<and>
     annotations ?d = filter (\<lambda>ann. category_id ann \<noteq> 90) (annotations data) \<and>
     (\<forall>ann \<in> set (annotations ?d). image_id ann \<noteq> img_id B \<and> category_id ann \<noteq> 90) \<and>
     categories ?d = categories data \<and>
     r \<noteq> Inl ValueError \<and> r \<noteq> Inl ZeroDivisionError \<and>
     (\<forall>d' tops. r = Inr (d', tops) \<longrightarrow> d' = ?d \<and> set tops = {1, 2}) \<and>
     (copies_succeed w [A, C] \<longrightarrow> (\<exists>tops. r = Inr (?d, tops) \<and> set tops = {1, 2}))"
    using run j si sa nb nv nz ret ok by (simp only: sampled_data_simps simp_thms)
  then show ?thesis
    by (intro exI [of _ w'] exI [of _ r] exI [of _ ?d])
qed

theorem scenario_three_images_witness:
  "valid_lib demo_lib \<and>
   images scenario_data = [mk_image 1 ''A.jpg'', mk_image 2 ''B.jpg'', mk_image 3 ''C.jpg''] \<and>
   has_category scenario_data 90 (mk_image 2 ''B.jpg'') \<and>
   has_category scenario_data 90 (mk_image 1 ''A.jpg'') \<and>
   copies_succeed demo_world [mk_image 1 ''A.jpg'', mk_image 3 ''C.jpg''] \<and>
   (\<exists>w' d tops.
      create_focused_sample_no_cat90 demo_lib scenario_data 2 10 42 demo_world =
        (w', Inr (d, tops)) \<and>
      out_json w' = Some d \<and>
      images d = [mk_image 1 ''A.jpg'', mk_image 3 ''C.jpg''] \<and>
      annotations d = [mk_ann 1 1, mk_ann 3 1, mk_ann 3 2] \<and>
      categories d = categories scenario_data)"
proof -
  have i: "images scenario_data =
      [mk_image 1 ''A.jpg'', mk_image 2 ''B.jpg'', mk_image 3 ''C.jpg'']"
    by (simp add: scenario_data_def)
  have d: "distinct [img_id (mk_image 1 ''A.jpg''), img_id (mk_image 2 ''B.jpg''),
      img_id (mk_image 3 ''C.jpg'')]"
    by (simp add: mk_image_def)
  have n: "\<forall>ann \<in> set (annotations scenario_data). category_id ann \<noteq> 90 \<longrightarrow>
      (image_id ann = img_id (mk_image 1 ''A.jpg'') \<and> category_id ann = 1) \<or>
      (image_id ann = img_id (mk_image 3 ''C.jpg'') \<and> category_id ann \<in> {1, 2})"
    by (simp add: scenario_data_def mk_ann_def mk_image_def)
  have h: "has_category scenario_data 1 (mk_image 1 ''A.jpg'')"
    "has_category scenario_data 1 (mk_image 3 ''C.jpg'')"
    "has_category scenario_data 2 (mk_image 3 ''C.jpg'')"
    "has_category scenario_data 90 (mk_image 2 ''B.jpg'')"
    "has_category scenario_data 90 (mk_image 1 ''A.jpg'')"
    by (simp_all add: has_category_def scenario_data_def mk_ann_def mk_image_def)
  have f: "filter (\<lambda>ann. category_id ann \<noteq> 90) (annotations scenario_data) =
      [mk_ann 1 1, mk_ann 3 1, mk_ann 3 2]"
    by (simp add: scenario_data_def mk_ann_def)
  note c = demo_copies [of "[mk_image 1 ''A.jpg'', mk_image 3 ''C.jpg'']"]
  from scenario_three_images [OF valid_demo_lib i d n h(1-4), of 42 demo_world]
  obtain w' r dd where run: "create_focused_sample_no_cat90 demo_lib scenario_data 2 10 42 demo_world = (w', r)"
    and j: "out_json w' = Some dd"
    and im: "images dd = [mk_image 1 ''A.jpg'', mk_image 3 ''C.jpg'']"
    and an: "annotations dd = filter (\<lambda>ann. category_id ann \<noteq> 90) (annotations scenario_data)"
    and ca: "categories dd = categories scenario_data"
    and ok: "copies_succeed demo_world [mk_image 1 ''A.jpg'', mk_image 3 ''C.jpg''] \<longrightarrow>
       (\<exists>tops. r = Inr (dd, tops) \<and> set tops = {1, 2})"
    by blast
  from ok c obtain tops where "r = Inr (dd, tops)" by blast
  with run j im an ca have "\<exists>w' d tops.
      create_focused_sample_no_cat90 demo_lib scenario_data 2 10 42 demo_world =
        (w', Inr (d, tops)) \<and>
      out_json w' = Some d \<and>
      images d = [mk_image 1 ''A.jpg'', mk_image 3 ''C.jpg''] \<and>
      annotations d = [mk_ann 1 1, mk_ann 3 1, mk_ann 3 2] \<and>
      categories d = categories scenario_data"
    by (simp add: f)
  with valid_demo_lib i h(4,5) c show ?thesis
    by (simp only: simp_thms)
qed

text \<open>
  C9. When no image is sampled, the run writes \<^verbatim>\<open>annotations.json\<close> (with an empty image
  list), copies nothing, prints the counters 0 and 0, and raises \<^verbatim>\<open>ZeroDivisionError\<close>
  at line 173 without writing the report. A run that returns has at least one sampled
  image and has written the report. An input whose annotations are all of category 90
  has no top category and ends in this error.
\<close>

theorem empty_sample_raises:
  "(\<forall>w1 ids. sampling lib data n cap seed w = (w1, Inr ids) \<and> sampled_images data ids = [] \<longrightarrow>
      create_focused_sample_no_cat90 lib data n cap seed w =
        (w1\<lparr>out_json := Some (sampled_data data ids), out_summary := Some (0, 0)\<rparr>,
         Inl ZeroDivisionError) \<and>
      images (sampled_data data ids) = []) \<and>
   (\<forall>w' d tops. create_focused_sample_no_cat90 lib data n cap seed w = (w', Inr (d, tops)) \<longrightarrow>
      images d \<noteq> [] \<and> out_json w' = Some d \<and> out_report w' \<noteq> None) \<and>
   (\<forall>w'. create_focused_sample_no_cat90 lib data n cap seed w = (w', Inl ZeroDivisionError) \<longrightarrow>
      (\<exists>d. out_json w' = Some d \<and> images d = []) \<and> out_summary w' = Some (0, 0) \<and>
      out_report w' = out_report w \<and> out_images w' = out_images w) \<and>
   ((\<forall>ann \<in> set (annotations data). category_id ann = 90) \<longrightarrow>
      snd (create_focused_sample_no_cat90 lib data n cap seed w) = Inl ZeroDivisionError)"
proof -
  have 1: "create_focused_sample_no_cat90 lib data n cap seed w =
        (w1\<lparr>out_json := Some (sampled_data data ids), out_summary := Some (0, 0)\<rparr>,
         Inl ZeroDivisionError) \<and>
      images (sampled_data data ids) = []"
    if s: "sampling lib data n cap seed w = (w1, Inr ids)" and e: "sampled_images data ids = []"
    for w1 ids
  proof -
    have "copies_succeed w1 (sampled_images data ids)"
      by (simp add: e copies_succeed_def)
    from emit_succeed [OF this, of n "top_categories data n"] show ?thesis
      by (simp add: run_eq [OF s] Let_def e sampled_data_simps)
  qed
  have 2: "images d \<noteq> [] \<and> out_json w' = Some d \<and> out_report w' \<noteq> None"
    if run: "create_focused_sample_no_cat90 lib data n cap seed w = (w', Inr (d, tops))"
    for w' d tops
  proof -
    have nv: "Inr (d, tops) \<noteq> (Inl ValueError :: error + dataset \<times> int list)" by simp
    from run_written [OF run nv] obtain u ids
      where j: "out_json w' = Some (sampled_data data ids)"
        and d: "\<forall>d' t. (Inr (d, tops) :: error + dataset \<times> int list) = Inr (d', t) \<longrightarrow>
          d' = sampled_data data ids \<and> t = top_categories data n \<and>
          sampled_images data ids \<noteq> [] \<and> out_report w' \<noteq> None"
      by blast
    from d have "d = sampled_data data ids" and "sampled_images data ids \<noteq> []"
      and "out_report w' \<noteq> None"
      by simp_all
    with j show ?thesis
      by (simp add: sampled_data_simps)
  qed
  have 3: "(\<exists>d. out_json w' = Some d \<and> images d = []) \<and> out_summary w' = Some (0, 0) \<and>
      out_report w' = out_report w \<and> out_images w' = out_images w"
    if run: "create_focused_sample_no_cat90 lib data n cap seed w = (w', Inl ZeroDivisionError)"
    for w'
  proof -
    have nv: "Inl ZeroDivisionError \<noteq> (Inl ValueError :: error + dataset \<times> int list)" by simp
    from run_written [OF run nv] obtain u ids
      where j: "out_json w' = Some (sampled_data data ids)"
        and z: "(Inl ZeroDivisionError :: error + dataset \<times> int list) = Inl ZeroDivisionError \<longrightarrow>
          sampled_images data ids = [] \<and> out_summary w' = Some (0, 0) \<and>
          out_report w' = out_report w \<and> out_images w' = out_images w"
      by blast
    from z have "sampled_images data ids = []" and "out_summary w' = Some (0, 0)"
      and "out_report w' = out_report w" and "out_images w' = out_images w"
      by simp_all
    with j show ?thesis
      by (simp add: sampled_data_simps)
  qed
  have 4: "snd (create_focused_sample_no_cat90 lib data n cap seed w) = Inl ZeroDivisionError"
    if a: "\<forall>ann \<in> set (annotations data). category_id ann = 90"
  proof -
    obtain w1 r where s: "sampling lib data n cap seed w = (w1, r)"
      by (cases "sampling lib data n cap seed w")
    from sample_loop_Nil_tops [OF s top_categories_all_90 [OF a]]
    have r: "r = Inr {}" by simp
    have "sampled_images data {} = []"
      by (simp add: sampled_images_def)
    with 1 [OF s [unfolded r]] show ?thesis by simp
  qed
  from 1 2 3 4 show ?thesis by blast
qed

theorem empty_sample_raises_witness:
  "list_all (\<lambda>ann. category_id ann = 90) (annotations (demo_data\<lparr>annotations := [mk_ann 2 90]\<rparr>)) \<and>
   snd (create_focused_sample_no_cat90 demo_lib (demo_data\<lparr>annotations := [mk_ann 2 90]\<rparr>)
          2 1 42 demo_world) = Inl ZeroDivisionError \<and>
   (\<exists>d. out_json (fst (create_focused_sample_no_cat90 demo_lib
                          (demo_data\<lparr>annotations := [mk_ann 2 90]\<rparr>) 2 1 42 demo_world)) = Some d \<and>
        images d = []) \<and>
   out_report (fst (create_focused_sample_no_cat90 demo_lib
                      (demo_data\<lparr>annotations := [mk_ann 2 90]\<rparr>) 2 1 42 demo_world)) = None"
proof -
  let ?d = "demo_data\<lparr>annotations := [mk_ann 2 90]\<rparr>"
  let ?run = "create_focused_sample_no_cat90 demo_lib ?d 2 1 42 demo_world"
  note t = empty_sample_raises [of demo_lib ?d 2 1 42 demo_world]
  have a: "\<forall>ann \<in> set (annotations ?d). category_id ann = 90"
    by (simp add: mk_ann_def)
  with t have r: "snd ?run = Inl ZeroDivisionError"
    by blast
  then have "?run = (fst ?run, Inl ZeroDivisionError)"
    by (metis prod.collapse)
  with t have "(\<exists>d. out_json (fst ?run) = Some d \<and> images d = []) \<and>
      out_report (fst ?run) = out_report demo_world"
    by blast
  with r show ?thesis
    by (simp add: mk_ann_def demo_world_def)
qed

text \<open>
  C10. The image list and the annotation list of the output are filters of the input
  lists: each is a subsequence of its input list, so records that survive keep their
  relative order, whatever the generator selected.
\<close>

theorem output_order_preserved:
  assumes "create_focused_sample_no_cat90 lib data n cap seed w = (w', r)"
  shows "(0 \<le> cap \<longrightarrow> r \<noteq> Inl ValueError) \<and>
     (r \<noteq> Inl ValueError \<longrightarrow>
        (\<exists>d ids. out_json w' = Some d \<and>
           images d = filter (\<lambda>img. img_id img \<in> ids) (images data) \<and>
           annotations d =
             filter (\<lambda>ann. image_id ann \<in> ids \<and> category_id ann \<noteq> 90) (annotations data) \<and>
           subseq (images d) (images data) \<and>
           subseq (annotations d) (annotations data) \<and>
           (\<forall>d' tops. r = Inr (d', tops) \<longrightarrow> d' = d)))"
proof (intro conjI impI)
  assume "0 \<le> cap"
  with run_ValueError [of lib data n cap seed w w'] assms show "r \<noteq> Inl ValueError"
    by auto
next
  assume "r \<noteq> Inl ValueError"
  from run_output [OF assms this] obtain w1 ids
    where j: "out_json w' = Some (sampled_data data ids)"
      and r: "\<forall>d' tops. r = Inr (d', tops) \<longrightarrow> d' = sampled_data data ids"
    by blast
  from r have "\<forall>d' tops. r = Inr (d', tops) \<longrightarrow> d' = sampled_data data ids" .
  with j show "\<exists>d ids. out_json w' = Some d \<and>
      images d = filter (\<lambda>img. img_id img \<in> ids) (images data) \<and>
      annotations d =
        filter (\<lambda>ann. image_id ann \<in> ids \<and> category_id ann \<noteq> 90) (annotations data) \<and>
      subseq (images d) (images data) \<and>
      subseq (annotations d) (annotations data) \<and>
      (\<forall>d' tops. r = Inr (d', tops) \<longrightarrow> d' = d)"
    by (auto simp: sampled_data_simps sampled_images_def sampled_annotations_def)
qed

theorem output_order_preserved_witness:
  "snd (create_focused_sample_no_cat90 demo_lib demo_data 2 1 42 demo_world) \<noteq> Inl ValueError \<and>
   (\<exists>d. out_json (fst (create_focused_sample_no_cat90 demo_lib demo_data 2 1 42 demo_world)) = Some d \<and>
      map img_id (images d) = [1, 3] \<and>
      map (\<lambda>ann. (image_id ann, category_id ann)) (annotations d) = [(1, 1), (3, 1), (3, 2), (1, 2)] \<and>
      subseq (images d) (images demo_data) \<and>
      subseq (annotations d) (annotations demo_data))"
  using output_order_preserved [OF demo_run]
  by (auto simp: demo_run sampled_data_simps demo_sampled_annotations demo_sampled_images
        mk_ann_def mk_image_def)

end
